theory Spec2Isabelle
  imports Complex_Main "HOL-Library.AList"
begin

section \<open>Go maps\<close>

text \<open>
  Both components keep their state in a Go map. A map is modelled as an association
  list: \<open>m[k] = v\<close> is \<open>AList.update k v m\<close>, \<open>delete(m, k)\<close> is \<open>AList.delete k m\<close>,
  \<open>v, ok := m[k]\<close> is \<open>map_of m k\<close> and \<open>len(m)\<close> is \<open>length m\<close>.

  Go leaves the order in which \<open>range\<close> visits a map unspecified. The order is therefore
  an input of every loop over a map: a \<^emph>\<open>seed\<close>, any list of keys. \<open>range_order seed m\<close>
  visits the keys of \<open>m\<close> that occur in the seed first, in the seed's order, and the
  remaining keys after them. Every enumeration \<open>p\<close> of the keys is obtained, as
  \<open>range_order p m\<close> (lemma \<open>range_order_any\<close>), and every seed gives an enumeration.
  Both loops of the program delete only the key they are visiting, so the keys visited
  are the keys present when the loop starts.
\<close>

definition keys_of :: "('k \<times> 'v) list \<Rightarrow> 'k list" where
  "keys_of m = map fst m"

definition range_order :: "'k list \<Rightarrow> ('k \<times> 'v) list \<Rightarrow> 'k list" where
  "range_order seed m =
     filter (\<lambda>k. k \<in> set (keys_of m)) (remdups seed) @
     filter (\<lambda>k. k \<notin> set seed) (keys_of m)"

section \<open>The broadcast hub (websocket.go)\<close>

text \<open>
  A \<open>*websocket.Conn\<close> is a pointer; its identity is a number. \<open>CounterUpdate\<close> is the
  struct of the same name.
\<close>

type_synonym conn = nat

record CounterUpdate =
  Count :: int
  TotalClicks :: int

text \<open>
  The \<open>log.Printf\<close> calls of websocket.go: the three of \<open>Hub.Run\<close>, with the value
  each one prints, and the one of \<open>wsHandler\<close>.
\<close>

datatype log_entry =
  LogConnected nat
  | LogDisconnected nat
  | LogWriteError conn
  | LogUpgradeError

text \<open>
  The text frame \<open>WriteJSON\<close> sends for an update: the JSON object with the two fields
  under their JSON names, the integers in decimal, and the newline that ends what the
  JSON encoder writes.
\<close>

fun digits :: "nat \<Rightarrow> string" where
  "digits n =
     (if n < 10 then [''0123456789'' ! n]
      else digits (n div 10) @ [''0123456789'' ! (n mod 10)])"

declare digits.simps [simp del]

definition decimal :: "int \<Rightarrow> string" where
  "decimal i = (if i < 0 then CHR ''-'' # digits (nat (- i)) else digits (nat i))"

definition json_of :: "CounterUpdate \<Rightarrow> string" where
  "json_of u =
     ''{\"count\":'' @ decimal (Count u) @ '',\"totalClicks\":'' @ decimal (TotalClicks u) @
     ''}'' @ [CHR 0x0A]"

text \<open>
  The state \<open>Hub.Run\<close> acts on. \<open>clients\<close> is the field of \<open>Hub\<close>. The other fields are
  the transport (gorilla/websocket, not part of the repository) as far as the loop
  observes and changes it: \<open>broken\<close> holds the connections whose peer is gone, \<open>shut\<close>
  the connections \<open>Close\<close> was called on, \<open>wire c\<close> the updates written to \<open>c\<close> with
  success, oldest first, \<open>frames c\<close> the text frames these writes have sent to the peer
  of \<open>c\<close>, and \<open>calls\<close> every call of \<open>WriteJSON\<close>, in order. \<open>logs\<close> is the process
  log.
\<close>

record State =
  clients :: "(conn \<times> bool) list"
  broken :: "conn set"
  shut :: "conn set"
  wire :: "conn \<Rightarrow> CounterUpdate list"
  frames :: "conn \<Rightarrow> string list"
  calls :: "(conn \<times> CounterUpdate) list"
  logs :: "log_entry list"

definition NewHub :: State where
  "NewHub =
     \<lparr>clients = [], broken = {}, shut = {}, wire = (\<lambda>c. []), frames = (\<lambda>c. []), calls = [],
      logs = []\<rparr>"

text \<open>
  \<open>conn.WriteJSON(update)\<close> returns an error exactly when the peer is gone or the
  connection has been closed; otherwise the update is on the wire, sent as the frame
  \<open>json_of update\<close>. The result is \<open>err != nil\<close>.
\<close>

definition write_fails :: "State \<Rightarrow> conn \<Rightarrow> bool" where
  "write_fails s c = (c \<in> broken s \<or> c \<in> shut s)"

definition WriteJSON :: "conn \<Rightarrow> CounterUpdate \<Rightarrow> State \<Rightarrow> bool \<times> State" where
  "WriteJSON c u s =
     (let s1 = s\<lparr>calls := calls s @ [(c, u)]\<rparr> in
      if write_fails s c then (True, s1)
      else (False, s1\<lparr>wire := (wire s1)(c := wire s1 c @ [u]),
                      frames := (frames s1)(c := frames s1 c @ [json_of u])\<rparr>))"

definition Close :: "conn \<Rightarrow> State \<Rightarrow> State" where
  "Close c s = s\<lparr>shut := insert c (shut s)\<rparr>"

text \<open>The body of the \<open>range\<close> loop of the broadcast case, and the loop.\<close>

definition broadcast_body :: "conn \<Rightarrow> CounterUpdate \<Rightarrow> State \<Rightarrow> State" where
  "broadcast_body c u s =
     (case WriteJSON c u s of
        (err, s1) \<Rightarrow>
          if err then
            (let s2 = s1\<lparr>logs := logs s1 @ [LogWriteError c]\<rparr>;
                 s3 = Close c s2
             in s3\<lparr>clients := AList.delete c (clients s3)\<rparr>)
          else s1)"

fun broadcast_loop :: "conn list \<Rightarrow> CounterUpdate \<Rightarrow> State \<Rightarrow> State" where
  "broadcast_loop [] u s = s"
| "broadcast_loop (c # cs) u s = broadcast_loop cs u (broadcast_body c u s)"

text \<open>
  A request received by the \<open>select\<close> of \<open>Hub.Run\<close> on one of the three channels. A
  broadcast carries the seed of the order in which its \<open>range\<close> visits \<open>h.clients\<close>.
\<close>

datatype request =
  Register conn
  | Unregister conn
  | Broadcast CounterUpdate "conn list"

text \<open>One iteration of the \<open>for\<close> loop of \<open>Hub.Run\<close>.\<close>

fun Run_step :: "request \<Rightarrow> State \<Rightarrow> State" where
  "Run_step (Register c) s =
     (let s1 = s\<lparr>clients := AList.update c True (clients s)\<rparr>
      in s1\<lparr>logs := logs s1 @ [LogConnected (length (clients s1))]\<rparr>)"
| "Run_step (Unregister c) s =
     (let s1 = (if map_of (clients s) c \<noteq> None
                then Close c (s\<lparr>clients := AList.delete c (clients s)\<rparr>)
                else s)
      in s1\<lparr>logs := logs s1 @ [LogDisconnected (length (clients s1))]\<rparr>)"
| "Run_step (Broadcast u seed) s = broadcast_loop (range_order seed (clients s)) u s"

text \<open>
  What happens while the loop runs: it receives a request, or the peer of a connection
  goes away (from then on writes to that connection fail).
\<close>

datatype event =
  Recv request
  | PeerGone conn

fun step :: "event \<Rightarrow> State \<Rightarrow> State" where
  "step (Recv r) s = Run_step r s"
| "step (PeerGone c) s = s\<lparr>broken := insert c (broken s)\<rparr>"

fun Run :: "event list \<Rightarrow> State \<Rightarrow> State" where
  "Run [] s = s"
| "Run (e # es) s = Run es (step e s)"


section \<open>The client address (getIPAddress)\<close>

text \<open>
  The rate-limiting middleware (\<open>getIPAddress\<close>, \<open>getLimiter\<close>, \<open>rateLimitMiddleware\<close>)
  is the Go source that follows the README in src/README.md.
\<close>

text \<open>
  An \<open>*http.Request\<close>, as far as the program reads it: the method, the header (a key's
  list of values) and the peer address the transport supplies. \<open>Header_Get\<close> is
  \<open>r.Header.Get\<close>: the first value of the key, or the empty string.
\<close>

record Request =
  Method :: string
  Header :: "string \<Rightarrow> string list"
  RemoteAddr :: string

definition Header_Get :: "Request \<Rightarrow> string \<Rightarrow> string" where
  "Header_Get r key = (case Header r key of [] \<Rightarrow> [] | v # _ \<Rightarrow> v)"

text \<open>
  \<open>net.SplitHostPort\<close> belongs to Go's standard library, not to the repository. The
  definition follows the library's function statement by statement: \<open>IndexByte\<close> and
  \<open>LastIndexByte\<close> give the position of the first and of the last occurrence of a
  byte, or \<open>-1\<close>; the result is the error or the pair of host and port.
\<close>

datatype addr_error =
  MissingPort
  | TooManyColons
  | MissingBracket
  | UnexpectedOpen
  | UnexpectedClose

fun IndexByte :: "string \<Rightarrow> char \<Rightarrow> int" where
  "IndexByte [] c = - 1"
| "IndexByte (x # xs) c =
     (if x = c then 0 else (let i = IndexByte xs c in if i < 0 then - 1 else i + 1))"

definition LastIndexByte :: "string \<Rightarrow> char \<Rightarrow> int" where
  "LastIndexByte s c =
     (let i = IndexByte (rev s) c in if i < 0 then - 1 else int (length s) - 1 - i)"

definition split_checks ::
  "string \<Rightarrow> int \<Rightarrow> string \<Rightarrow> nat \<Rightarrow> nat \<Rightarrow> addr_error + (string \<times> string)" where
  "split_checks hostport i host j k =
     (if IndexByte (drop j hostport) CHR ''['' \<ge> 0 then Inl UnexpectedOpen
      else if IndexByte (drop k hostport) CHR '']'' \<ge> 0 then Inl UnexpectedClose
      else Inr (host, drop (nat (i + 1)) hostport))"

definition SplitHostPort :: "string \<Rightarrow> addr_error + (string \<times> string)" where
  "SplitHostPort hostport =
     (let i = LastIndexByte hostport CHR '':'' in
      if i < 0 then Inl MissingPort
      else if hostport ! 0 = CHR ''['' then
        (let e = IndexByte hostport CHR '']'' in
         if e < 0 then Inl MissingBracket
         else if e + 1 = int (length hostport) then Inl MissingPort
         else if e + 1 = i then
           split_checks hostport i (take (nat e - 1) (drop 1 hostport)) 1 (nat (e + 1))
         else if hostport ! nat (e + 1) = CHR '':'' then Inl TooManyColons
         else Inl MissingPort)
      else
        (let host = take (nat i) hostport in
         if IndexByte host CHR '':'' \<ge> 0 then Inl TooManyColons
         else split_checks hostport i host 0 0))"

definition getIPAddress :: "Request \<Rightarrow> string" where
  "getIPAddress r =
     (let forwarded = Header_Get r ''X-Forwarded-For'' in
      if forwarded \<noteq> [] then
        (case SplitHostPort forwarded of
           Inr (ip, port) \<Rightarrow> ip
         | Inl err \<Rightarrow> forwarded)
      else
        (let realIP = Header_Get r ''X-Real-IP'' in
         if realIP \<noteq> [] then realIP
         else
           (case SplitHostPort (RemoteAddr r) of
              Inl err \<Rightarrow> RemoteAddr r
            | Inr (ip, port) \<Rightarrow> ip)))"

section \<open>The admission limiter (getLimiter, rateLimitMiddleware)\<close>

text \<open>
  Modelled from the spec: the token bucket of \<open>golang.org/x/time/rate\<close>
  (\<open>rate.Limiter\<close>, \<open>rate.NewLimiter\<close>, \<open>Allow\<close>), a library that is not under src/.
  In the spec's words a limiter entry holds a token-bucket state (capacity, refill rate,
  current tokens, last-refill timestamp); a bucket is created with a full burst;
  \<open>allow\<close> attempts to consume one token, returns whether a token was available, and
  mutates the token count and the last-refill timestamp regardless of the outcome.
  \<open>refilled now l\<close> is the token count at \<open>now\<close>: what the bucket held at its
  timestamp and what the rate has added since, up to the capacity.
  Tokens and the clock are real numbers, the clock in seconds, where the library
  computes with \<open>float64\<close> and nanoseconds.
\<close>

record Limiter =
  rate_limit :: real
  burst :: int
  tokens :: real
  last_time :: real

definition NewLimiter :: "real \<Rightarrow> int \<Rightarrow> Limiter" where
  "NewLimiter r b = \<lparr>rate_limit = r, burst = b, tokens = of_int b, last_time = 0\<rparr>"

definition refilled :: "real \<Rightarrow> Limiter \<Rightarrow> real" where
  "refilled now l =
     min (of_int (burst l)) (tokens l + max 0 (now - last_time l) * rate_limit l)"

definition Allow :: "real \<Rightarrow> Limiter \<Rightarrow> bool \<times> Limiter" where
  "Allow now l =
     (let t = refilled now l
      in if 1 \<le> t then (True, l\<lparr>tokens := t - 1, last_time := now\<rparr>)
         else (False, l\<lparr>tokens := t, last_time := now\<rparr>))"

text \<open>
  What the code does with its shared state, in order: the lock and unlock of \<open>mu\<close>, the
  operations on the map \<open>limiters\<close>, and the call of \<open>Allow\<close> on a limiter.
\<close>

datatype action =
  Lock
  | Unlock
  | Lookup string
  | Assign string
  | Delete string
  | Consume nat

text \<open>
  The package-level state of the middleware. \<open>limiters\<close> maps an address to a pointer;
  pointers to \<open>rate.Limiter\<close> objects are indices into \<open>heap\<close>, which holds every
  limiter allocated so far. \<open>trace\<close> records the actions performed.
\<close>

record Limiters =
  limiters :: "(string \<times> nat) list"
  heap :: "Limiter list"
  trace :: "action list"

definition NewLimiters :: Limiters where
  "NewLimiters = \<lparr>limiters = [], heap = [], trace = []\<rparr>"

text \<open>The cleanup loop of \<open>getLimiter\<close>, over the keys in the order of the \<open>range\<close>.\<close>

fun sweep :: "string list \<Rightarrow> nat \<Rightarrow> Limiters \<Rightarrow> Limiters" where
  "sweep [] count s = s"
| "sweep (k # ks) count s =
     (let s1 = s\<lparr>limiters := AList.delete k (limiters s), trace := trace s @ [Delete k]\<rparr>;
          count1 = count + 1
      in if count1 > 5000 then s1 else sweep ks count1 s1)"

definition getLimiter :: "string list \<Rightarrow> string \<Rightarrow> int \<Rightarrow> Limiters \<Rightarrow> nat \<times> Limiters" where
  "getLimiter seed ip requestsPerMinute s =
     (let s0 = s\<lparr>trace := trace s @ [Lock, Lookup ip]\<rparr> in
      case map_of (limiters s0) ip of
        Some limiter \<Rightarrow> (limiter, s0\<lparr>trace := trace s0 @ [Unlock]\<rparr>)
      | None \<Rightarrow>
          (let limiter = length (heap s0);
               s1 = s0\<lparr>heap := heap s0 @
                      [NewLimiter (real_of_int requestsPerMinute / 60) requestsPerMinute]\<rparr>;
               s2 = s1\<lparr>limiters := AList.update ip limiter (limiters s1),
                       trace := trace s1 @ [Assign ip]\<rparr>;
               s3 = (if length (limiters s2) > 10000
                     then sweep (range_order seed (limiters s2)) 0 s2
                     else s2)
           in (limiter, s3\<lparr>trace := trace s3 @ [Unlock]\<rparr>)))"

text \<open>\<open>limiter.Allow()\<close> on the limiter a pointer refers to, at clock reading \<open>now\<close>.\<close>

definition Limiter_Allow :: "nat \<Rightarrow> real \<Rightarrow> Limiters \<Rightarrow> bool \<times> Limiters" where
  "Limiter_Allow limiter now s =
     (case Allow now (heap s ! limiter) of
        (ok, l) \<Rightarrow> (ok, s\<lparr>heap := (heap s)[limiter := l], trace := trace s @ [Consume limiter]\<rparr>))"

text \<open>
  The handler \<open>rateLimitMiddleware\<close> returns, run on one request: the status and text
  of \<open>http.Error\<close>, or what \<open>next\<close> does with the request.
\<close>

definition rateLimitMiddleware ::
  "(Request \<Rightarrow> 'a) \<Rightarrow> int \<Rightarrow> real \<Rightarrow> string list \<Rightarrow> Request \<Rightarrow> Limiters \<Rightarrow>
     (string \<times> nat + 'a) \<times> Limiters" where
  "rateLimitMiddleware next requestsPerMinute now seed r s =
     (let ip = getIPAddress r in
      case getLimiter seed ip requestsPerMinute s of
        (limiter, s1) \<Rightarrow>
          (case Limiter_Allow limiter now s1 of
             (ok, s2) \<Rightarrow>
               if \<not> ok
               then (Inl (''Rate limit exceeded. Please try again later.'', 429), s2)
               else (Inr (next r), s2)))"

text \<open>
  The admission decision of the middleware for an address: \<open>getLimiter\<close>, then \<open>Allow\<close>
  on the limiter it returned. A call is the clock reading, the seed of the sweep's order
  and the address; \<open>allow_seq\<close> runs calls one after the other.
\<close>

definition allow :: "real \<Rightarrow> string list \<Rightarrow> string \<Rightarrow> int \<Rightarrow> Limiters \<Rightarrow> bool \<times> Limiters" where
  "allow now seed ip requestsPerMinute s =
     (case getLimiter seed ip requestsPerMinute s of
        (limiter, s1) \<Rightarrow> Limiter_Allow limiter now s1)"

fun allow_seq ::
  "(real \<times> string list \<times> string) list \<Rightarrow> int \<Rightarrow> Limiters \<Rightarrow> bool list \<times> Limiters" where
  "allow_seq [] requestsPerMinute s = ([], s)"
| "allow_seq ((now, seed, ip) # cs) requestsPerMinute s =
     (case allow now seed ip requestsPerMinute s of
        (ok, s1) \<Rightarrow>
          (case allow_seq cs requestsPerMinute s1 of (oks, s2) \<Rightarrow> (ok # oks, s2)))"

text \<open>
  The middleware serving requests one after the other; a request comes with the clock
  reading of its \<open>Allow\<close> and the seed of its sweep's order.
\<close>

fun serve_seq ::
  "(Request \<Rightarrow> 'a) \<Rightarrow> int \<Rightarrow> (real \<times> string list \<times> Request) list \<Rightarrow> Limiters \<Rightarrow>
     (string \<times> nat + 'a) list \<times> Limiters" where
  "serve_seq next requestsPerMinute [] s = ([], s)"
| "serve_seq next requestsPerMinute ((now, seed, r) # rs) s =
     (case rateLimitMiddleware next requestsPerMinute now seed r s of
        (res, s1) \<Rightarrow>
          (case serve_seq next requestsPerMinute rs s1 of (ress, s2) \<Rightarrow> (res # ress, s2)))"

text \<open>
  Whether the mutex is held when each action of a trace is performed, given whether it
  is held at the start.
\<close>

fun held :: "bool \<Rightarrow> action list \<Rightarrow> (action \<times> bool) list" where
  "held h [] = []"
| "held h (Lock # as) = (Lock, h) # held True as"
| "held h (Unlock # as) = (Unlock, h) # held False as"
| "held h (a # as) = (a, h) # held h as"

section \<open>The counter store and its handlers (counter.go and src/unnamed/part_000)\<close>

text \<open>
  The counter store is MongoDB behind its Go driver, an external service. Its state is
  the documents of the collection \<open>counters\<close> (the \<open>count\<close> of each \<open>_id\<close>) and a script
  of faults: each call of the driver takes the head of the script and fails when it is
  \<open>True\<close> (the store is unreachable, the call times out, ...); on the empty script no
  call fails for such a reason. \<open>FindOne\<close> and \<open>FindOneAndUpdate\<close> also fail, with
  \<open>ErrNoDocuments\<close>, when no document has the \<open>_id\<close>; \<open>UpdateOne\<close> then changes nothing
  and returns no error. The update is always \<open>$inc\<close> of \<open>count\<close> by \<open>delta\<close>, and
  \<open>FindOneAndUpdate\<close> returns the document after the update.
\<close>

datatype store_error =
  ErrNoDocuments
  | ErrUnavailable

record Counter =
  ID :: string
  Count' :: int

record CounterStore =
  counters :: "string \<Rightarrow> int option"
  faults :: "bool list"

definition take_fault :: "CounterStore \<Rightarrow> bool \<times> CounterStore" where
  "take_fault st = (case faults st of [] \<Rightarrow> (False, st) | f # fs \<Rightarrow> (f, st\<lparr>faults := fs\<rparr>))"

definition FindOne :: "CounterStore \<Rightarrow> string \<Rightarrow> (store_error + Counter) \<times> CounterStore" where
  "FindOne st key =
     (case take_fault st of
        (fault, st1) \<Rightarrow>
          if fault then (Inl ErrUnavailable, st1)
          else (case counters st1 key of
                  None \<Rightarrow> (Inl ErrNoDocuments, st1)
                | Some n \<Rightarrow> (Inr \<lparr>ID = key, Count' = n\<rparr>, st1)))"

definition UpdateOne :: "CounterStore \<Rightarrow> string \<Rightarrow> int \<Rightarrow> store_error option \<times> CounterStore" where
  "UpdateOne st key delta =
     (case take_fault st of
        (fault, st1) \<Rightarrow>
          if fault then (Some ErrUnavailable, st1)
          else (case counters st1 key of
                  None \<Rightarrow> (None, st1)
                | Some n \<Rightarrow> (None, st1\<lparr>counters := (counters st1)(key \<mapsto> n + delta)\<rparr>)))"

definition FindOneAndUpdate ::
  "CounterStore \<Rightarrow> string \<Rightarrow> int \<Rightarrow> (store_error + Counter) \<times> CounterStore" where
  "FindOneAndUpdate st key delta =
     (case take_fault st of
        (fault, st1) \<Rightarrow>
          if fault then (Inl ErrUnavailable, st1)
          else (case counters st1 key of
                  None \<Rightarrow> (Inl ErrNoDocuments, st1)
                | Some n \<Rightarrow>
                    (Inr \<lparr>ID = key, Count' = n + delta\<rparr>,
                     st1\<lparr>counters := (counters st1)(key \<mapsto> n + delta)\<rparr>)))"

text \<open>
  What a handler has done when it returns: the response (the text and status of
  \<open>http.Error\<close>, or the update encoded as the JSON body), the updates it sent on
  \<open>hub.broadcast\<close>, what it logged, and the store.
\<close>

datatype response =
  HttpError string nat
  | JsonBody CounterUpdate

record Handled =
  response :: response
  sent :: "CounterUpdate list"
  logged :: "string list"
  store :: CounterStore

text \<open>
  The goroutine the handlers start to increment \<open>totalClicks\<close>; its result is dropped.
  It runs at a moment of its own: \<open>early\<close> says whether that is before the handler reads
  \<open>totalClicks\<close> or after the handler has returned.
\<close>

definition background_clicks :: "CounterStore \<Rightarrow> CounterStore" where
  "background_clicks st = snd (FindOneAndUpdate st ''totalClicks'' 1)"

text \<open>
  The part \<open>incrementHandler\<close> and \<open>decrementHandler\<close> share from the point where the
  primary update has returned \<open>webhookCounter\<close>: the background increment, the read of
  \<open>totalClicks\<close>, the broadcast and the response.
\<close>

definition publish :: "bool \<Rightarrow> Counter \<Rightarrow> CounterStore \<Rightarrow> Handled" where
  "publish early webhookCounter st =
     (let st1 = (if early then background_clicks st else st) in
      case FindOne st1 ''totalClicks'' of
        (found, st2) \<Rightarrow>
          (let totalClicksCounter =
                 (case found of Inl err \<Rightarrow> \<lparr>ID = [], Count' = 0\<rparr> | Inr c \<Rightarrow> c);
               update = \<lparr>Count = Count' webhookCounter, TotalClicks = Count' totalClicksCounter\<rparr>
           in \<lparr>response = JsonBody update, sent = [update],
                logged = (case found of Inl err \<Rightarrow> [''Error getting total clicks:''] | Inr c \<Rightarrow> []),
                store = (if early then st2 else background_clicks st2)\<rparr>))"

text \<open>\<open>incrementHandler\<close> and \<open>decrementHandler\<close> as in src/unnamed/part_000.\<close>

definition incrementHandler :: "bool \<Rightarrow> Request \<Rightarrow> CounterStore \<Rightarrow> Handled" where
  "incrementHandler early r st =
     (if Method r \<noteq> ''POST''
      then \<lparr>response = HttpError ''Method not allowed'' 405, sent = [], logged = [], store = st\<rparr>
      else
        (case FindOneAndUpdate st ''webhook'' 1 of
           (Inl err, st1) \<Rightarrow>
             \<lparr>response = HttpError ''Error incrementing counter'' 500, sent = [], logged = [], store = st1\<rparr>
         | (Inr webhookCounter, st1) \<Rightarrow> publish early webhookCounter st1))"

definition decrementHandler :: "bool \<Rightarrow> Request \<Rightarrow> CounterStore \<Rightarrow> Handled" where
  "decrementHandler early r st =
     (if Method r \<noteq> ''POST''
      then \<lparr>response = HttpError ''Method not allowed'' 405, sent = [], logged = [], store = st\<rparr>
      else
        (case FindOneAndUpdate st ''webhook'' (- 1) of
           (Inl err, st1) \<Rightarrow>
             \<lparr>response = HttpError ''Error decrementing counter'' 500, sent = [], logged = [], store = st1\<rparr>
         | (Inr webhookCounter, st1) \<Rightarrow> publish early webhookCounter st1))"

text \<open>
  The two handlers as in counter.go: \<open>UpdateOne\<close>, then \<open>FindOne\<close>, then the broadcast of
  the count alone (\<open>TotalClicks\<close> is the zero value).
\<close>

definition handler_counter_go :: "int \<Rightarrow> string \<Rightarrow> Request \<Rightarrow> CounterStore \<Rightarrow> Handled" where
  "handler_counter_go delta failure r st =
     (if Method r \<noteq> ''POST''
      then \<lparr>response = HttpError ''Method not allowed'' 405, sent = [], logged = [], store = st\<rparr>
      else
        (case UpdateOne st ''webhook'' delta of
           (Some err, st1) \<Rightarrow> \<lparr>response = HttpError failure 500, sent = [], logged = [], store = st1\<rparr>
         | (None, st1) \<Rightarrow>
             (case FindOne st1 ''webhook'' of
                (Inl err, st2) \<Rightarrow>
                  \<lparr>response = HttpError ''Error getting counter'' 500, sent = [], logged = [], store = st2\<rparr>
              | (Inr webhookCounter, st2) \<Rightarrow>
                  \<lparr>response = JsonBody \<lparr>Count = Count' webhookCounter, TotalClicks = 0\<rparr>,
                   sent = [\<lparr>Count = Count' webhookCounter, TotalClicks = 0\<rparr>],
                   logged = [], store = st2\<rparr>)))"

definition incrementHandler_counter_go :: "Request \<Rightarrow> CounterStore \<Rightarrow> Handled" where
  "incrementHandler_counter_go = handler_counter_go 1 ''Error incrementing counter''"

definition decrementHandler_counter_go :: "Request \<Rightarrow> CounterStore \<Rightarrow> Handled" where
  "decrementHandler_counter_go = handler_counter_go (- 1) ''Error decrementing counter''"

section \<open>The connection handler (websocket.go, wsHandler)\<close>

text \<open>
  \<open>wsHandler\<close> from the upgrade to the write of the snapshot. \<open>upgraded\<close> is the result
  of \<open>upgrader.Upgrade\<close>: the connection, or nothing when the upgrade failed (the
  handler then logs the error and returns). The send on \<open>hub.register\<close> returns
  once \<open>Hub.Run\<close> has received the request; from then on the hub runs beside the
  handler, and \<open>meanwhile\<close> is what it processes, after the registration, before the
  handler's own \<open>WriteJSON\<close>.
  The two \<open>Decode\<close> errors are dropped: a counter that was not read keeps its zero
  value. The error of \<open>WriteJSON\<close> is dropped as well.
\<close>

definition snapshot :: "CounterStore \<Rightarrow> CounterUpdate \<times> CounterStore" where
  "snapshot st =
     (case FindOne st ''webhook'' of
        (r1, st1) \<Rightarrow>
          (case FindOne st1 ''totalClicks'' of
             (r2, st2) \<Rightarrow>
               (let webhookCounter = (case r1 of Inl err \<Rightarrow> \<lparr>ID = [], Count' = 0\<rparr> | Inr c \<Rightarrow> c);
                    totalClicksCounter = (case r2 of Inl err \<Rightarrow> \<lparr>ID = [], Count' = 0\<rparr> | Inr c \<Rightarrow> c)
                in (\<lparr>Count = Count' webhookCounter, TotalClicks = Count' totalClicksCounter\<rparr>,
                    st2))))"

definition wsHandler_connect ::
  "conn option \<Rightarrow> event list \<Rightarrow> CounterStore \<Rightarrow> State \<Rightarrow> State \<times> CounterStore" where
  "wsHandler_connect upgraded meanwhile st s =
     (case upgraded of
        None \<Rightarrow> (s\<lparr>logs := logs s @ [LogUpgradeError]\<rparr>, st)
      | Some c \<Rightarrow>
          (let s1 = Run_step (Register c) s;
               s2 = Run meanwhile s1
           in case snapshot st of
                (u, st1) \<Rightarrow> (snd (WriteJSON c u s2), st1)))"

text \<open>
  The whole handler: after the snapshot it reads from the connection until a read
  fails, while the hub processes \<open>during\<close>, and then sends the connection on
  \<open>hub.unregister\<close>.
\<close>

definition wsHandler ::
  "conn option \<Rightarrow> event list \<Rightarrow> event list \<Rightarrow> CounterStore \<Rightarrow> State \<Rightarrow> State \<times> CounterStore" where
  "wsHandler upgraded meanwhile during st s =
     (case upgraded of
        None \<Rightarrow> wsHandler_connect upgraded meanwhile st s
      | Some c \<Rightarrow>
          (case wsHandler_connect upgraded meanwhile st s of
             (s3, st1) \<Rightarrow> (Run_step (Unregister c) (Run during s3), st1)))"

section \<open>The limiter's invariant and a supply of addresses\<close>

text \<open>
  The invariant of the package-level state: no address is tracked twice, and every
  pointer in the map refers to an allocated limiter.
\<close>

definition wf_limiters :: "Limiters \<Rightarrow> bool" where
  "wf_limiters s =
     (distinct (keys_of (limiters s)) \<and> list_all (\<lambda>p. snd p < length (heap s)) (limiters s))"

text \<open>Addresses that differ from each other, and a call from each.\<close>

definition addr :: "nat \<Rightarrow> string" where
  "addr n = replicate (Suc n) CHR ''1''"

definition call_from :: "nat \<Rightarrow> real \<times> string list \<times> string" where
  "call_from n = (0, [], addr n)"

text \<open>A request whose \<open>X-Real-IP\<close> header carries such an address.\<close>

definition request_from :: "nat \<Rightarrow> Request" where
  "request_from n =
     \<lparr>Method = ''POST'', Header = (\<lambda>k. if k = ''X-Real-IP'' then [addr n] else []),
      RemoteAddr = ''203.0.113.7:51234''\<rparr>"

section \<open>Facts about maps\<close>

lemma set_range_order: "set (range_order seed m) = set (keys_of m)"
  by (auto simp: range_order_def)

lemma distinct_range_order: "distinct (keys_of m) \<Longrightarrow> distinct (range_order seed m)"
  by (auto simp: range_order_def)

lemma range_order_any:
  "distinct p \<Longrightarrow> set p = set (keys_of m) \<Longrightarrow> range_order p m = p"
  by (simp add: range_order_def)

lemma keys_of_delete: "keys_of (AList.delete k m) = removeAll k (keys_of m)"
  by (simp add: keys_of_def delete_keys)

lemma distinct_keys_delete: "distinct (keys_of m) \<Longrightarrow> distinct (keys_of (AList.delete k m))"
  by (simp add: keys_of_def distinct_delete)

lemma distinct_keys_update: "distinct (keys_of m) \<Longrightarrow> distinct (keys_of (AList.update k v m))"
  by (simp add: keys_of_def distinct_update)

lemma set_keys_update: "set (keys_of (AList.update k v m)) = insert k (set (keys_of m))"
  using dom_update [of k v m] by (simp add: keys_of_def)

section \<open>The broadcast pass\<close>

lemma body_calls: "calls (broadcast_body c u s) = calls s @ [(c, u)]"
  by (simp add: broadcast_body_def WriteJSON_def Close_def Let_def)

lemma body_broken: "broken (broadcast_body c u s) = broken s"
  by (simp add: broadcast_body_def WriteJSON_def Close_def Let_def)

lemma body_closed:
  "shut (broadcast_body c u s) = (if write_fails s c then insert c (shut s) else shut s)"
  by (simp add: broadcast_body_def WriteJSON_def Close_def Let_def)

lemma body_clients:
  "clients (broadcast_body c u s) =
     (if write_fails s c then AList.delete c (clients s) else clients s)"
  by (simp add: broadcast_body_def WriteJSON_def Close_def Let_def)

lemma body_wire:
  "wire (broadcast_body c u s) =
     (if write_fails s c then wire s else (wire s)(c := wire s c @ [u]))"
  by (simp add: broadcast_body_def WriteJSON_def Close_def Let_def)

lemma body_logs:
  "logs (broadcast_body c u s) =
     (if write_fails s c then logs s @ [LogWriteError c] else logs s)"
  by (simp add: broadcast_body_def WriteJSON_def Close_def Let_def)

lemma body_write_fails:
  "write_fails (broadcast_body c u s) d = (write_fails s d)"
  by (auto simp: write_fails_def body_broken body_closed)

lemma body_write_fails_fun: "write_fails (broadcast_body c u s) = write_fails s"
  by (rule ext) (rule body_write_fails)

lemma loop_write_fails: "write_fails (broadcast_loop cs u s) d = write_fails s d"
  by (induction cs arbitrary: s) (simp_all add: body_write_fails)

lemma loop_calls: "calls (broadcast_loop cs u s) = calls s @ map (\<lambda>c. (c, u)) cs"
  by (induction cs arbitrary: s) (simp_all add: body_calls)

lemma loop_broken: "broken (broadcast_loop cs u s) = broken s"
  by (induction cs arbitrary: s) (simp_all add: body_broken)

lemma loop_closed:
  "shut (broadcast_loop cs u s) = shut s \<union> {c \<in> set cs. write_fails s c}"
  by (induction cs arbitrary: s) (auto simp: body_closed body_write_fails)

lemma loop_keys:
  "set (keys_of (clients (broadcast_loop cs u s))) =
     set (keys_of (clients s)) - {c \<in> set cs. write_fails s c}"
  by (induction cs arbitrary: s) (auto simp: body_clients body_write_fails keys_of_delete)

lemma loop_distinct:
  "distinct (keys_of (clients s)) \<Longrightarrow> distinct (keys_of (clients (broadcast_loop cs u s)))"
  by (induction cs arbitrary: s) (simp_all add: body_clients distinct_keys_delete)

lemma loop_wire_other: "c \<notin> set cs \<Longrightarrow> wire (broadcast_loop cs u s) c = wire s c"
  by (induction cs arbitrary: s) (auto simp: body_wire)

lemma loop_wire:
  "distinct cs \<Longrightarrow> c \<in> set cs \<Longrightarrow>
     wire (broadcast_loop cs u s) c = (if write_fails s c then wire s c else wire s c @ [u])"
proof (induction cs arbitrary: s)
  case Nil
  then show ?case by simp
next
  case (Cons d cs)
  show ?case
  proof (cases "c = d")
    case True
    with Cons.prems have "c \<notin> set cs" by simp
    then have "wire (broadcast_loop (d # cs) u s) c = wire (broadcast_body d u s) c"
      by (simp add: loop_wire_other)
    with True show ?thesis by (simp add: body_wire)
  next
    case False
    with Cons.prems have "distinct cs" "c \<in> set cs" by simp_all
    from Cons.IH [OF this, of "broadcast_body d u s"] False show ?thesis
      by (simp add: body_write_fails body_wire)
  qed
qed

lemma loop_logs:
  "logs (broadcast_loop cs u s) = logs s @ map LogWriteError (filter (write_fails s) cs)"
  by (induction cs arbitrary: s) (simp_all add: body_logs body_write_fails_fun)

text \<open>
  C1. One broadcast of an update \<open>u\<close>, whatever the order of the pass: \<open>WriteJSON\<close> is
  called with \<open>u\<close> once on every connection registered when the pass starts and on
  nothing else; a connection whose write fails is closed and is no longer registered;
  every connection whose write succeeds has \<open>u\<close> as its newest message and stays
  registered; the failures end in the log, one entry each. The pass yields the new
  state and no error value: the sender on the broadcast channel gets nothing back.
\<close>

theorem broadcast_isolation:
  assumes "distinct (keys_of (clients s))"
  shows "\<exists>order. distinct order \<and> set order = set (keys_of (clients s)) \<and>
           calls (Run_step (Broadcast u seed) s) = calls s @ map (\<lambda>c. (c, u)) order \<and>
           logs (Run_step (Broadcast u seed) s) =
             logs s @ map LogWriteError (filter (write_fails s) order) \<and>
           (\<forall>c \<in> set (keys_of (clients s)).
              if write_fails s c
              then c \<in> shut (Run_step (Broadcast u seed) s) \<and>
                   c \<notin> set (keys_of (clients (Run_step (Broadcast u seed) s))) \<and>
                   wire (Run_step (Broadcast u seed) s) c = wire s c
              else wire (Run_step (Broadcast u seed) s) c = wire s c @ [u] \<and>
                   c \<in> set (keys_of (clients (Run_step (Broadcast u seed) s))) \<and>
                   c \<notin> shut (Run_step (Broadcast u seed) s))"
proof -
  let ?order = "range_order seed (clients s)"
  have d: "distinct ?order" using assms by (rule distinct_range_order)
  have e: "set ?order = set (keys_of (clients s))" by (rule set_range_order)
  have "\<forall>c \<in> set (keys_of (clients s)).
          if write_fails s c
          then c \<in> shut (broadcast_loop ?order u s) \<and>
               c \<notin> set (keys_of (clients (broadcast_loop ?order u s))) \<and>
               wire (broadcast_loop ?order u s) c = wire s c
          else wire (broadcast_loop ?order u s) c = wire s c @ [u] \<and>
               c \<in> set (keys_of (clients (broadcast_loop ?order u s))) \<and>
               c \<notin> shut (broadcast_loop ?order u s)"
  proof
    fix c assume "c \<in> set (keys_of (clients s))"
    then have m: "c \<in> set ?order" by (simp add: e)
    show "if write_fails s c
          then c \<in> shut (broadcast_loop ?order u s) \<and>
               c \<notin> set (keys_of (clients (broadcast_loop ?order u s))) \<and>
               wire (broadcast_loop ?order u s) c = wire s c
          else wire (broadcast_loop ?order u s) c = wire s c @ [u] \<and>
               c \<in> set (keys_of (clients (broadcast_loop ?order u s))) \<and>
               c \<notin> shut (broadcast_loop ?order u s)"
      using m e by (auto simp: loop_closed loop_keys loop_wire [OF d m] write_fails_def)
  qed
  with d e show ?thesis
    by (intro exI [of _ ?order]) (simp add: loop_calls loop_logs)
qed

theorem broadcast_isolation_witness:
  "distinct (keys_of (clients (NewHub\<lparr>clients := [(1, True), (2, True), (3, True)], broken := {2}\<rparr>))) \<and>
   2 \<in> shut (Run_step (Broadcast \<lparr>Count = 5, TotalClicks = 12\<rparr> [3, 1])
                 (NewHub\<lparr>clients := [(1, True), (2, True), (3, True)], broken := {2}\<rparr>)) \<and>
   2 \<notin> set (keys_of (clients (Run_step (Broadcast \<lparr>Count = 5, TotalClicks = 12\<rparr> [3, 1])
                 (NewHub\<lparr>clients := [(1, True), (2, True), (3, True)], broken := {2}\<rparr>)))) \<and>
   wire (Run_step (Broadcast \<lparr>Count = 5, TotalClicks = 12\<rparr> [3, 1])
                 (NewHub\<lparr>clients := [(1, True), (2, True), (3, True)], broken := {2}\<rparr>)) 1 =
     [\<lparr>Count = 5, TotalClicks = 12\<rparr>] \<and>
   wire (Run_step (Broadcast \<lparr>Count = 5, TotalClicks = 12\<rparr> [3, 1])
                 (NewHub\<lparr>clients := [(1, True), (2, True), (3, True)], broken := {2}\<rparr>)) 3 =
     [\<lparr>Count = 5, TotalClicks = 12\<rparr>]"
proof -
  let ?s = "NewHub\<lparr>clients := [(1, True), (2, True), (3, True)], broken := {2}\<rparr>"
  let ?u = "\<lparr>Count = 5, TotalClicks = 12\<rparr>"
  have h: "distinct (keys_of (clients ?s))" by (simp add: keys_of_def)
  have k: "set (keys_of (clients ?s)) = {1, 2, 3}" by (auto simp: keys_of_def)
  have f: "write_fails ?s 2" "\<not> write_fails ?s 1" "\<not> write_fails ?s 3"
    by (simp_all add: write_fails_def NewHub_def)
  have w: "wire ?s = (\<lambda>c. [])" by (simp add: NewHub_def)
  from broadcast_isolation [OF h, of ?u "[3, 1]"] obtain order where
    a: "\<forall>c \<in> set (keys_of (clients ?s)).
          if write_fails ?s c
          then c \<in> shut (Run_step (Broadcast ?u [3, 1]) ?s) \<and>
               c \<notin> set (keys_of (clients (Run_step (Broadcast ?u [3, 1]) ?s))) \<and>
               wire (Run_step (Broadcast ?u [3, 1]) ?s) c = wire ?s c
          else wire (Run_step (Broadcast ?u [3, 1]) ?s) c = wire ?s c @ [?u] \<and>
               c \<in> set (keys_of (clients (Run_step (Broadcast ?u [3, 1]) ?s))) \<and>
               c \<notin> shut (Run_step (Broadcast ?u [3, 1]) ?s)"
    by blast
  from a k have "if write_fails ?s 2
          then 2 \<in> shut (Run_step (Broadcast ?u [3, 1]) ?s) \<and>
               2 \<notin> set (keys_of (clients (Run_step (Broadcast ?u [3, 1]) ?s))) \<and>
               wire (Run_step (Broadcast ?u [3, 1]) ?s) 2 = wire ?s 2
          else wire (Run_step (Broadcast ?u [3, 1]) ?s) 2 = wire ?s 2 @ [?u] \<and>
               2 \<in> set (keys_of (clients (Run_step (Broadcast ?u [3, 1]) ?s))) \<and>
               2 \<notin> shut (Run_step (Broadcast ?u [3, 1]) ?s)"
    by blast
  with f have two: "2 \<in> shut (Run_step (Broadcast ?u [3, 1]) ?s)"
    "2 \<notin> set (keys_of (clients (Run_step (Broadcast ?u [3, 1]) ?s)))"
    by simp_all
  from a k have "if write_fails ?s 1
          then 1 \<in> shut (Run_step (Broadcast ?u [3, 1]) ?s) \<and>
               1 \<notin> set (keys_of (clients (Run_step (Broadcast ?u [3, 1]) ?s))) \<and>
               wire (Run_step (Broadcast ?u [3, 1]) ?s) 1 = wire ?s 1
          else wire (Run_step (Broadcast ?u [3, 1]) ?s) 1 = wire ?s 1 @ [?u] \<and>
               1 \<in> set (keys_of (clients (Run_step (Broadcast ?u [3, 1]) ?s))) \<and>
               1 \<notin> shut (Run_step (Broadcast ?u [3, 1]) ?s)"
    by blast
  with f w have one: "wire (Run_step (Broadcast ?u [3, 1]) ?s) 1 = [?u]"
    by simp
  from a k have "if write_fails ?s 3
          then 3 \<in> shut (Run_step (Broadcast ?u [3, 1]) ?s) \<and>
               3 \<notin> set (keys_of (clients (Run_step (Broadcast ?u [3, 1]) ?s))) \<and>
               wire (Run_step (Broadcast ?u [3, 1]) ?s) 3 = wire ?s 3
          else wire (Run_step (Broadcast ?u [3, 1]) ?s) 3 = wire ?s 3 @ [?u] \<and>
               3 \<in> set (keys_of (clients (Run_step (Broadcast ?u [3, 1]) ?s))) \<and>
               3 \<notin> shut (Run_step (Broadcast ?u [3, 1]) ?s)"
    by blast
  with f w have three: "wire (Run_step (Broadcast ?u [3, 1]) ?s) 3 = [?u]"
    by simp
  from h two one three show ?thesis by blast
qed

section \<open>The registry over a run\<close>

lemma Run_append: "Run (xs @ ys) s = Run ys (Run xs s)"
  by (induction xs arbitrary: s) simp_all

lemma Run_step_distinct:
  "distinct (keys_of (clients s)) \<Longrightarrow> distinct (keys_of (clients (Run_step r s)))"
  by (cases r) (simp_all add: Let_def Close_def distinct_keys_update distinct_keys_delete loop_distinct)

lemma step_distinct:
  "distinct (keys_of (clients s)) \<Longrightarrow> distinct (keys_of (clients (step e s)))"
  by (cases e) (simp_all add: Run_step_distinct)

lemma Run_distinct:
  "distinct (keys_of (clients s)) \<Longrightarrow> distinct (keys_of (clients (Run es s)))"
  by (induction es arbitrary: s) (simp_all add: step_distinct)

lemma Run_step_absent:
  assumes "c \<notin> set (keys_of (clients s))" and "Register c \<noteq> r"
  shows "c \<notin> set (keys_of (clients (Run_step r s)))"
proof (cases r)
  case (Register d)
  then show ?thesis using assms by (simp add: Let_def set_keys_update)
next
  case (Unregister d)
  then show ?thesis using assms by (simp add: Let_def Close_def keys_of_delete)
next
  case (Broadcast u seed)
  then show ?thesis using assms by (simp add: loop_keys)
qed

lemma step_absent:
  "c \<notin> set (keys_of (clients s)) \<Longrightarrow> Recv (Register c) \<noteq> e \<Longrightarrow>
     c \<notin> set (keys_of (clients (step e s)))"
  by (cases e) (simp_all add: Run_step_absent)

lemma Run_absent:
  "c \<notin> set (keys_of (clients s)) \<Longrightarrow> Recv (Register c) \<notin> set es \<Longrightarrow>
     c \<notin> set (keys_of (clients (Run es s)))"
  by (induction es arbitrary: s) (simp_all add: step_absent)

lemma unregister_absent: "c \<notin> set (keys_of (clients (Run_step (Unregister c) s)))"
proof (cases "map_of (clients s) c = None")
  case True
  then have "c \<notin> set (keys_of (clients s))"
    by (simp add: keys_of_def map_of_eq_None_iff)
  with True show ?thesis by (simp add: Let_def)
next
  case False
  then show ?thesis by (simp add: Let_def Close_def keys_of_delete)
qed

lemma broadcast_absent:
  "write_fails s c \<Longrightarrow> c \<notin> set (keys_of (clients (Run_step (Broadcast u seed) s)))"
  by (simp add: loop_keys set_range_order)

lemma NewHub_distinct: "distinct (keys_of (clients NewHub))"
  by (simp add: NewHub_def keys_of_def)

text \<open>
  C2. Whatever finite sequence of requests the loop has processed since \<open>NewHub\<close> (and
  whichever peers went away meanwhile), no connection occurs twice in the registry;
  and a connection that was unregistered, or whose write failed in a broadcast, and
  that was not registered again afterwards, is not in the registry.
\<close>

theorem registry_consistency:
  "distinct (keys_of (clients (Run evs NewHub))) \<and>
   (Recv (Register c) \<notin> set post \<longrightarrow>
      c \<notin> set (keys_of (clients (Run (pre @ Recv (Unregister c) # post) NewHub)))) \<and>
   (Recv (Register c) \<notin> set post \<and> write_fails (Run pre NewHub) c \<longrightarrow>
      c \<notin> set (keys_of (clients (Run (pre @ Recv (Broadcast u seed) # post) NewHub))))"
proof (intro conjI impI)
  show "distinct (keys_of (clients (Run evs NewHub)))"
    using NewHub_distinct by (rule Run_distinct)
next
  assume "Recv (Register c) \<notin> set post"
  with unregister_absent [of c "Run pre NewHub"]
  show "c \<notin> set (keys_of (clients (Run (pre @ Recv (Unregister c) # post) NewHub)))"
    by (simp add: Run_append Run_absent)
next
  assume "Recv (Register c) \<notin> set post \<and> write_fails (Run pre NewHub) c"
  with broadcast_absent [of "Run pre NewHub" c u seed]
  show "c \<notin> set (keys_of (clients (Run (pre @ Recv (Broadcast u seed) # post) NewHub)))"
    by (simp add: Run_append Run_absent)
qed

theorem registry_consistency_witness:
  "Recv (Register 1) \<notin> set [Recv (Register 3), Recv (Broadcast \<lparr>Count = 1, TotalClicks = 1\<rparr> [])] \<and>
   write_fails (Run [Recv (Register 1), Recv (Register 2), PeerGone 1] NewHub) 1 \<and>
   distinct (keys_of (clients (Run [Recv (Register 1), Recv (Register 1), Recv (Register 2)] NewHub))) \<and>
   1 \<notin> set (keys_of (clients (Run ([Recv (Register 1), Recv (Register 2), PeerGone 1] @
          Recv (Unregister 1) #
          [Recv (Register 3), Recv (Broadcast \<lparr>Count = 1, TotalClicks = 1\<rparr> [])]) NewHub))) \<and>
   1 \<notin> set (keys_of (clients (Run ([Recv (Register 1), Recv (Register 2), PeerGone 1] @
          Recv (Broadcast \<lparr>Count = 0, TotalClicks = 0\<rparr> [2]) #
          [Recv (Register 3), Recv (Broadcast \<lparr>Count = 1, TotalClicks = 1\<rparr> [])]) NewHub)))"
proof -
  have a: "Recv (Register 1) \<notin> set [Recv (Register 3), Recv (Broadcast \<lparr>Count = 1, TotalClicks = 1\<rparr> [])]"
    by simp
  have b: "write_fails (Run [Recv (Register 1), Recv (Register 2), PeerGone 1] NewHub) 1"
    by (simp add: write_fails_def NewHub_def)
  note r = registry_consistency
    [of "[Recv (Register 1), Recv (Register 1), Recv (Register 2)]" 1
        "[Recv (Register 3), Recv (Broadcast \<lparr>Count = 1, TotalClicks = 1\<rparr> [])]"
        "[Recv (Register 1), Recv (Register 2), PeerGone 1]"
        "\<lparr>Count = 0, TotalClicks = 0\<rparr>" "[2]"]
  from a b r show ?thesis by blast
qed

section \<open>Failure of the counter store\<close>

lemma FindOneAndUpdate_failed:
  "fst (FindOneAndUpdate st key delta) = Inl e \<Longrightarrow>
     counters (snd (FindOneAndUpdate st key delta)) = counters st"
  by (auto simp: FindOneAndUpdate_def take_fault_def split: list.splits if_splits option.splits)

lemma UpdateOne_failed:
  "fst (UpdateOne st key delta) = Some e \<Longrightarrow>
     counters (snd (UpdateOne st key delta)) = counters st"
  by (auto simp: UpdateOne_def take_fault_def split: list.splits if_splits option.splits)

lemma incrementHandler_failed:
  assumes "Method r = ''POST''" and "fst (FindOneAndUpdate st ''webhook'' 1) = Inl e"
  shows "incrementHandler early r st =
           \<lparr>response = HttpError ''Error incrementing counter'' 500, sent = [], logged = [],
            store = snd (FindOneAndUpdate st ''webhook'' 1)\<rparr>"
  using assms by (cases "FindOneAndUpdate st ''webhook'' 1") (simp add: incrementHandler_def)

lemma decrementHandler_failed:
  assumes "Method r = ''POST''" and "fst (FindOneAndUpdate st ''webhook'' (- 1)) = Inl e"
  shows "decrementHandler early r st =
           \<lparr>response = HttpError ''Error decrementing counter'' 500, sent = [], logged = [],
            store = snd (FindOneAndUpdate st ''webhook'' (- 1))\<rparr>"
  using assms by (cases "FindOneAndUpdate st ''webhook'' (- 1)") (simp add: decrementHandler_def)

lemma handler_counter_go_failed:
  assumes "Method r = ''POST''" and "fst (UpdateOne st ''webhook'' delta) = Some e"
  shows "handler_counter_go delta failure r st =
           \<lparr>response = HttpError failure 500, sent = [], logged = [],
            store = snd (UpdateOne st ''webhook'' delta)\<rparr>"
  using assms by (cases "UpdateOne st ''webhook'' delta") (simp add: handler_counter_go_def)

text \<open>
  C5. When the primary update of the counter \<open>webhook\<close> fails in a handler that has
  reached it (the request is a POST), the handler answers with status 500, sends
  nothing on \<open>hub.broadcast\<close>, and leaves the counters of the store as they were. This
  holds for \<open>incrementHandler\<close> and \<open>decrementHandler\<close> of both files.
\<close>

theorem store_failure_skips_broadcast:
  assumes "Method r = ''POST''"
  shows
    "(fst (FindOneAndUpdate st ''webhook'' 1) = Inl e \<longrightarrow>
        response (incrementHandler early r st) = HttpError ''Error incrementing counter'' 500 \<and>
        sent (incrementHandler early r st) = [] \<and>
        counters (store (incrementHandler early r st)) = counters st) \<and>
     (fst (FindOneAndUpdate st ''webhook'' (- 1)) = Inl e \<longrightarrow>
        response (decrementHandler early r st) = HttpError ''Error decrementing counter'' 500 \<and>
        sent (decrementHandler early r st) = [] \<and>
        counters (store (decrementHandler early r st)) = counters st) \<and>
     (fst (UpdateOne st ''webhook'' 1) = Some e \<longrightarrow>
        response (incrementHandler_counter_go r st) = HttpError ''Error incrementing counter'' 500 \<and>
        sent (incrementHandler_counter_go r st) = [] \<and>
        counters (store (incrementHandler_counter_go r st)) = counters st) \<and>
     (fst (UpdateOne st ''webhook'' (- 1)) = Some e \<longrightarrow>
        response (decrementHandler_counter_go r st) = HttpError ''Error decrementing counter'' 500 \<and>
        sent (decrementHandler_counter_go r st) = [] \<and>
        counters (store (decrementHandler_counter_go r st)) = counters st)"
proof (intro conjI impI)
  assume f: "fst (FindOneAndUpdate st ''webhook'' 1) = Inl e"
  note h = incrementHandler_failed [OF assms f, of early]
  show "response (incrementHandler early r st) = HttpError ''Error incrementing counter'' 500"
    and "sent (incrementHandler early r st) = []"
    and "counters (store (incrementHandler early r st)) = counters st"
    by (simp_all add: h FindOneAndUpdate_failed [OF f])
next
  assume f: "fst (FindOneAndUpdate st ''webhook'' (- 1)) = Inl e"
  note h = decrementHandler_failed [OF assms f, of early]
  show "response (decrementHandler early r st) = HttpError ''Error decrementing counter'' 500"
    and "sent (decrementHandler early r st) = []"
    and "counters (store (decrementHandler early r st)) = counters st"
    by (simp_all add: h FindOneAndUpdate_failed [OF f])
next
  assume f: "fst (UpdateOne st ''webhook'' 1) = Some e"
  note h = handler_counter_go_failed [OF assms f]
  show "response (incrementHandler_counter_go r st) = HttpError ''Error incrementing counter'' 500"
    and "sent (incrementHandler_counter_go r st) = []"
    and "counters (store (incrementHandler_counter_go r st)) = counters st"
    by (simp_all add: incrementHandler_counter_go_def h UpdateOne_failed [OF f])
next
  assume f: "fst (UpdateOne st ''webhook'' (- 1)) = Some e"
  note h = handler_counter_go_failed [OF assms f]
  show "response (decrementHandler_counter_go r st) = HttpError ''Error decrementing counter'' 500"
    and "sent (decrementHandler_counter_go r st) = []"
    and "counters (store (decrementHandler_counter_go r st)) = counters st"
    by (simp_all add: decrementHandler_counter_go_def h UpdateOne_failed [OF f])
qed

theorem store_failure_skips_broadcast_witness:
  "Method \<lparr>Method = ''POST'', Header = (\<lambda>k. []), RemoteAddr = ''203.0.113.7:51234''\<rparr> = ''POST'' \<and>
   fst (FindOneAndUpdate \<lparr>counters = [''webhook'' \<mapsto> 4, ''totalClicks'' \<mapsto> 11], faults = [True]\<rparr>
          ''webhook'' 1) = Inl ErrUnavailable \<and>
   fst (FindOneAndUpdate \<lparr>counters = [''webhook'' \<mapsto> 4, ''totalClicks'' \<mapsto> 11], faults = [True]\<rparr>
          ''webhook'' (- 1)) = Inl ErrUnavailable \<and>
   fst (UpdateOne \<lparr>counters = [''webhook'' \<mapsto> 4, ''totalClicks'' \<mapsto> 11], faults = [True]\<rparr>
          ''webhook'' 1) = Some ErrUnavailable \<and>
   fst (UpdateOne \<lparr>counters = [''webhook'' \<mapsto> 4, ''totalClicks'' \<mapsto> 11], faults = [True]\<rparr>
          ''webhook'' (- 1)) = Some ErrUnavailable \<and>
   sent (incrementHandler True
          \<lparr>Method = ''POST'', Header = (\<lambda>k. []), RemoteAddr = ''203.0.113.7:51234''\<rparr>
          \<lparr>counters = [''webhook'' \<mapsto> 4, ''totalClicks'' \<mapsto> 11], faults = [True]\<rparr>) = [] \<and>
   response (decrementHandler False
          \<lparr>Method = ''POST'', Header = (\<lambda>k. []), RemoteAddr = ''203.0.113.7:51234''\<rparr>
          \<lparr>counters = [''webhook'' \<mapsto> 4, ''totalClicks'' \<mapsto> 11], faults = [True]\<rparr>) =
     HttpError ''Error decrementing counter'' 500 \<and>
   sent (incrementHandler_counter_go
          \<lparr>Method = ''POST'', Header = (\<lambda>k. []), RemoteAddr = ''203.0.113.7:51234''\<rparr>
          \<lparr>counters = [''webhook'' \<mapsto> 4, ''totalClicks'' \<mapsto> 11], faults = [True]\<rparr>) = [] \<and>
   sent (decrementHandler_counter_go
          \<lparr>Method = ''POST'', Header = (\<lambda>k. []), RemoteAddr = ''203.0.113.7:51234''\<rparr>
          \<lparr>counters = [''webhook'' \<mapsto> 4, ''totalClicks'' \<mapsto> 11], faults = [True]\<rparr>) = []"
proof -
  let ?r = "\<lparr>Method = ''POST'', Header = (\<lambda>k. []), RemoteAddr = ''203.0.113.7:51234''\<rparr>"
  let ?st = "\<lparr>counters = [''webhook'' \<mapsto> 4, ''totalClicks'' \<mapsto> 11], faults = [True]\<rparr>"
  have m: "Method ?r = ''POST''" by simp
  have a: "fst (FindOneAndUpdate ?st ''webhook'' 1) = Inl ErrUnavailable"
    by (simp add: FindOneAndUpdate_def take_fault_def)
  have b: "fst (FindOneAndUpdate ?st ''webhook'' (- 1)) = Inl ErrUnavailable"
    by (simp add: FindOneAndUpdate_def take_fault_def)
  have c: "fst (UpdateOne ?st ''webhook'' 1) = Some ErrUnavailable"
    by (simp add: UpdateOne_def take_fault_def)
  have d: "fst (UpdateOne ?st ''webhook'' (- 1)) = Some ErrUnavailable"
    by (simp add: UpdateOne_def take_fault_def)
  from m a b c d store_failure_skips_broadcast [OF m, of ?st ErrUnavailable True]
    store_failure_skips_broadcast [OF m, of ?st ErrUnavailable False]
  show ?thesis by blast
qed

section \<open>Splitting host and port\<close>

lemma IndexByte_eq:
  "IndexByte s c = (if c \<in> set s then int (length (takeWhile (\<lambda>x. x \<noteq> c) s)) else - 1)"
  by (induction s) (auto simp: Let_def)

lemma takeWhile_short:
  "c \<in> set s \<Longrightarrow> length (takeWhile (\<lambda>x. x \<noteq> c) s) < length s"
  by (induction s) auto

lemma IndexByte_neg: "IndexByte s c < 0 \<longleftrightarrow> c \<notin> set s"
  by (simp add: IndexByte_eq)

lemma IndexByte_nth:
  assumes "0 \<le> IndexByte s c"
  shows "nat (IndexByte s c) < length s" and "s ! nat (IndexByte s c) = c"
proof -
  from assms have m: "c \<in> set s" by (simp add: IndexByte_eq split: if_splits)
  then have i: "nat (IndexByte s c) = length (takeWhile (\<lambda>x. x \<noteq> c) s)"
    by (simp add: IndexByte_eq)
  from m have l: "length (takeWhile (\<lambda>x. x \<noteq> c) s) < length s"
    by (rule takeWhile_short)
  with i show "nat (IndexByte s c) < length s" by simp
  from l nth_length_takeWhile [of "\<lambda>x. x \<noteq> c" s] i
  show "s ! nat (IndexByte s c) = c" by simp
qed

lemma LastIndexByte_neg: "LastIndexByte s c < 0 \<longleftrightarrow> c \<notin> set s"
proof (cases "c \<in> set s")
  case True
  then have "c \<in> set (rev s)" by simp
  then have "length (takeWhile (\<lambda>x. x \<noteq> c) (rev s)) < length (rev s)"
    by (rule takeWhile_short)
  with True show ?thesis by (simp add: LastIndexByte_def IndexByte_eq Let_def)
next
  case False
  then show ?thesis by (simp add: LastIndexByte_def IndexByte_eq Let_def)
qed

lemma LastIndexByte_nth:
  assumes "0 \<le> LastIndexByte s c"
  shows "nat (LastIndexByte s c) < length s" and "s ! nat (LastIndexByte s c) = c"
proof -
  from assms have "\<not> LastIndexByte s c < 0" by simp
  then have m: "c \<in> set (rev s)" by (simp add: LastIndexByte_neg)
  then have p: "0 \<le> IndexByte (rev s) c" by (simp add: IndexByte_eq)
  let ?j = "nat (IndexByte (rev s) c)"
  from IndexByte_nth [OF p] have j: "?j < length s" and r: "rev s ! ?j = c" by simp_all
  from p j have e: "nat (LastIndexByte s c) = length s - Suc ?j"
    by (simp add: LastIndexByte_def Let_def)
  from j e show "nat (LastIndexByte s c) < length s" by simp
  from r j e show "s ! nat (LastIndexByte s c) = c" by (simp add: rev_nth)
qed

lemma split_checks_Inr:
  "split_checks s i h j k = Inr (h', p) \<Longrightarrow> h' = h \<and> p = drop (nat (i + 1)) s"
  by (auto simp: split_checks_def split: if_splits)

text \<open>
  A successful split takes the address apart at its last colon: the address is
  \<open>host:port\<close>, or \<open>[host]:port\<close>.
\<close>

lemma SplitHostPort_form:
  assumes "SplitHostPort s = Inr (h, p)"
  shows "s = h @ CHR '':'' # p \<or> s = CHR ''['' # h @ CHR '']'' # CHR '':'' # p"
proof -
  let ?i = "LastIndexByte s CHR '':''"
  from assms have i0: "0 \<le> ?i"
    by (simp add: SplitHostPort_def Let_def split: if_splits)
  note i = LastIndexByte_nth [OF i0]
  have cut: "s = take (nat ?i) s @ CHR '':'' # drop (nat (?i + 1)) s"
  proof -
    from i0 have "nat (?i + 1) = Suc (nat ?i)" by simp
    with id_take_nth_drop [OF i(1)] i(2) show ?thesis by simp
  qed
  show ?thesis
  proof (cases "s ! 0 = CHR ''[''")
    case False
    with assms i0 have "split_checks s ?i (take (nat ?i) s) 0 0 = Inr (h, p)"
      by (simp add: SplitHostPort_def Let_def split: if_splits)
    from split_checks_Inr [OF this] cut show ?thesis by simp
  next
    case True
    let ?e = "IndexByte s CHR '']''"
    from assms i0 True have e0: "0 \<le> ?e" and ei: "?e + 1 = ?i"
      and sc: "split_checks s ?i (take (nat ?e - 1) (drop 1 s)) 1 (nat (?e + 1)) = Inr (h, p)"
      by (simp_all add: SplitHostPort_def Let_def split: if_splits)
    note e = IndexByte_nth [OF e0]
    from split_checks_Inr [OF sc] have h: "h = take (nat ?e - 1) (drop 1 s)"
      and p: "p = drop (nat (?i + 1)) s" by simp_all
    from e(2) True have "nat ?e \<noteq> 0" by (cases "nat ?e = 0") auto
    then obtain n where n: "nat ?e = Suc n" by (cases "nat ?e") simp_all
    from i(1) have "s \<noteq> []" by auto
    then obtain t where t: "s = CHR ''['' # t" using True by (cases s) simp_all
    from e0 ei n have ni: "nat ?i = Suc (Suc n)" by linarith
    from n e t have tn: "n < length t" "t ! n = CHR '']''" by simp_all
    from ni i t have ti: "Suc n < length t" "t ! Suc n = CHR '':''" by simp_all
    from i0 ni have pp: "p = drop (Suc (Suc n)) t"
      using p t by (simp add: nat_add_distrib)
    have "t = take n t @ t ! n # drop (Suc n) t" using tn(1) by (rule id_take_nth_drop)
    also have "drop (Suc n) t = t ! Suc n # drop (Suc (Suc n)) t"
      using ti(1) by (simp add: Cons_nth_drop_Suc)
    finally have "t = take n t @ CHR '']'' # CHR '':'' # p"
      using tn(2) ti(2) pp by simp
    moreover from h n t have "h = take n t" by simp
    ultimately show ?thesis using t by simp
  qed
qed

lemma SplitHostPort_no_colon: "CHR '':'' \<notin> set s \<Longrightarrow> SplitHostPort s = Inl MissingPort"
  using LastIndexByte_neg [of s "CHR '':''"] by (simp add: SplitHostPort_def Let_def)

lemma SplitHostPort_host_nonempty:
  assumes "SplitHostPort s = Inr (h, p)" and "take 1 s \<noteq> '':''" and "take 2 s \<noteq> ''[]''"
  shows "h \<noteq> []"
  using SplitHostPort_form [OF assms(1)] assms(2,3) by auto

section \<open>The client address\<close>

text \<open>
  C7, as the code has it. A non-empty \<open>X-Forwarded-For\<close> decides the result: its host
  when the value splits as \<open>host:port\<close> or \<open>[host]:port\<close>, the whole value otherwise.
  Without it a non-empty \<open>X-Real-IP\<close> is returned as it is; without both the result is
  the host of the peer address, or the whole peer address when that does not split.
  The result is non-empty when the peer address is non-empty and neither the forwarded
  value nor the peer address begins with \<open>:\<close> or \<open>[]\<close>, the two ways a split yields
  an empty host.
\<close>

theorem getIPAddress_priority:
  "(Header_Get r ''X-Forwarded-For'' \<noteq> [] \<longrightarrow>
      (case SplitHostPort (Header_Get r ''X-Forwarded-For'') of
         Inr (h, p) \<Rightarrow>
           getIPAddress r = h \<and>
           (Header_Get r ''X-Forwarded-For'' = h @ '':'' @ p \<or>
            Header_Get r ''X-Forwarded-For'' = ''['' @ h @ '']:'' @ p)
       | Inl e \<Rightarrow> getIPAddress r = Header_Get r ''X-Forwarded-For'')) \<and>
   (Header_Get r ''X-Forwarded-For'' = [] \<and> Header_Get r ''X-Real-IP'' \<noteq> [] \<longrightarrow>
      getIPAddress r = Header_Get r ''X-Real-IP'') \<and>
   (Header_Get r ''X-Forwarded-For'' = [] \<and> Header_Get r ''X-Real-IP'' = [] \<longrightarrow>
      (case SplitHostPort (RemoteAddr r) of
         Inr (h, p) \<Rightarrow>
           getIPAddress r = h \<and>
           (RemoteAddr r = h @ '':'' @ p \<or> RemoteAddr r = ''['' @ h @ '']:'' @ p)
       | Inl e \<Rightarrow> getIPAddress r = RemoteAddr r)) \<and>
   (RemoteAddr r \<noteq> [] \<and>
    take 1 (Header_Get r ''X-Forwarded-For'') \<noteq> '':'' \<and>
    take 2 (Header_Get r ''X-Forwarded-For'') \<noteq> ''[]'' \<and>
    take 1 (RemoteAddr r) \<noteq> '':'' \<and> take 2 (RemoteAddr r) \<noteq> ''[]'' \<longrightarrow>
      getIPAddress r \<noteq> [])"
proof (intro conjI impI)
  assume "Header_Get r ''X-Forwarded-For'' \<noteq> []"
  then show "case SplitHostPort (Header_Get r ''X-Forwarded-For'') of
         Inr (h, p) \<Rightarrow>
           getIPAddress r = h \<and>
           (Header_Get r ''X-Forwarded-For'' = h @ '':'' @ p \<or>
            Header_Get r ''X-Forwarded-For'' = ''['' @ h @ '']:'' @ p)
       | Inl e \<Rightarrow> getIPAddress r = Header_Get r ''X-Forwarded-For''"
    using SplitHostPort_form [of "Header_Get r ''X-Forwarded-For''"]
    by (auto simp: getIPAddress_def Let_def split: sum.splits)
next
  assume "Header_Get r ''X-Forwarded-For'' = [] \<and> Header_Get r ''X-Real-IP'' \<noteq> []"
  then show "getIPAddress r = Header_Get r ''X-Real-IP''"
    by (simp add: getIPAddress_def Let_def)
next
  assume "Header_Get r ''X-Forwarded-For'' = [] \<and> Header_Get r ''X-Real-IP'' = []"
  then show "case SplitHostPort (RemoteAddr r) of
         Inr (h, p) \<Rightarrow>
           getIPAddress r = h \<and>
           (RemoteAddr r = h @ '':'' @ p \<or> RemoteAddr r = ''['' @ h @ '']:'' @ p)
       | Inl e \<Rightarrow> getIPAddress r = RemoteAddr r"
    using SplitHostPort_form [of "RemoteAddr r"]
    by (auto simp: getIPAddress_def Let_def split: sum.splits)
next
  assume a: "RemoteAddr r \<noteq> [] \<and>
    take 1 (Header_Get r ''X-Forwarded-For'') \<noteq> '':'' \<and>
    take 2 (Header_Get r ''X-Forwarded-For'') \<noteq> ''[]'' \<and>
    take 1 (RemoteAddr r) \<noteq> '':'' \<and> take 2 (RemoteAddr r) \<noteq> ''[]''"
  show "getIPAddress r \<noteq> []"
  proof (cases "Header_Get r ''X-Forwarded-For'' = []")
    case False
    with a SplitHostPort_host_nonempty [of "Header_Get r ''X-Forwarded-For''"]
    show ?thesis
      by (auto simp: getIPAddress_def Let_def split: sum.splits)
  next
    case True
    with a SplitHostPort_host_nonempty [of "RemoteAddr r"]
    show ?thesis
      by (auto simp: getIPAddress_def Let_def split: sum.splits)
  qed
qed

theorem getIPAddress_priority_witness:
  "Header_Get \<lparr>Method = ''POST'',
      Header = (\<lambda>k. if k = ''X-Forwarded-For'' then [''198.51.100.4:8080''] else []),
      RemoteAddr = ''203.0.113.7:51234''\<rparr> ''X-Forwarded-For'' \<noteq> [] \<and>
   getIPAddress \<lparr>Method = ''POST'',
      Header = (\<lambda>k. if k = ''X-Forwarded-For'' then [''198.51.100.4:8080''] else []),
      RemoteAddr = ''203.0.113.7:51234''\<rparr> = ''198.51.100.4'' \<and>
   Header_Get \<lparr>Method = ''POST'',
      Header = (\<lambda>k. if k = ''X-Real-IP'' then [''198.51.100.9''] else []),
      RemoteAddr = ''203.0.113.7:51234''\<rparr> ''X-Real-IP'' \<noteq> [] \<and>
   getIPAddress \<lparr>Method = ''POST'',
      Header = (\<lambda>k. if k = ''X-Real-IP'' then [''198.51.100.9''] else []),
      RemoteAddr = ''203.0.113.7:51234''\<rparr> = ''198.51.100.9'' \<and>
   getIPAddress \<lparr>Method = ''POST'', Header = (\<lambda>k. []),
      RemoteAddr = ''203.0.113.7:51234''\<rparr> = ''203.0.113.7'' \<and>
   getIPAddress \<lparr>Method = ''POST'', Header = (\<lambda>k. []),
      RemoteAddr = ''203.0.113.7:51234''\<rparr> \<noteq> []"
proof -
  let ?r1 = "\<lparr>Method = ''POST'',
      Header = (\<lambda>k. if k = ''X-Forwarded-For'' then [''198.51.100.4:8080''] else []),
      RemoteAddr = ''203.0.113.7:51234''\<rparr>"
  let ?r2 = "\<lparr>Method = ''POST'',
      Header = (\<lambda>k. if k = ''X-Real-IP'' then [''198.51.100.9''] else []),
      RemoteAddr = ''203.0.113.7:51234''\<rparr>"
  let ?r3 = "\<lparr>Method = ''POST'', Header = (\<lambda>k. []), RemoteAddr = ''203.0.113.7:51234''\<rparr>"
  have x1: "Header_Get ?r1 ''X-Forwarded-For'' = ''198.51.100.4:8080''"
    by (simp add: Header_Get_def)
  have s1: "SplitHostPort ''198.51.100.4:8080'' = Inr (''198.51.100.4'', ''8080'')"
    by (simp add: SplitHostPort_def LastIndexByte_def split_checks_def)
  from getIPAddress_priority [of ?r1] x1 s1
  have one: "Header_Get ?r1 ''X-Forwarded-For'' \<noteq> []" "getIPAddress ?r1 = ''198.51.100.4''"
    by simp_all
  have x2: "Header_Get ?r2 ''X-Forwarded-For'' = []" "Header_Get ?r2 ''X-Real-IP'' = ''198.51.100.9''"
    by (simp_all add: Header_Get_def)
  from getIPAddress_priority [of ?r2] x2
  have two: "Header_Get ?r2 ''X-Real-IP'' \<noteq> []" "getIPAddress ?r2 = ''198.51.100.9''"
    by simp_all
  have x3: "Header_Get ?r3 ''X-Forwarded-For'' = []" "Header_Get ?r3 ''X-Real-IP'' = []"
    by (simp_all add: Header_Get_def)
  have s3: "SplitHostPort ''203.0.113.7:51234'' = Inr (''203.0.113.7'', ''51234'')"
    by (simp add: SplitHostPort_def LastIndexByte_def split_checks_def)
  from getIPAddress_priority [of ?r3] x3 s3
  have three: "getIPAddress ?r3 = ''203.0.113.7''" "getIPAddress ?r3 \<noteq> []"
    by simp_all
  from one two three show ?thesis by blast
qed

text \<open>
  The peer address is there and the result is empty: the forwarded value \<open>:8080\<close>
  splits into an empty host and the port.
\<close>

theorem getIPAddress_empty_counterexample:
  "RemoteAddr \<lparr>Method = ''POST'',
      Header = (\<lambda>k. if k = ''X-Forwarded-For'' then ['':8080''] else []),
      RemoteAddr = ''203.0.113.7:51234''\<rparr> \<noteq> [] \<and>
   getIPAddress \<lparr>Method = ''POST'',
      Header = (\<lambda>k. if k = ''X-Forwarded-For'' then ['':8080''] else []),
      RemoteAddr = ''203.0.113.7:51234''\<rparr> = []"
  by (simp add: getIPAddress_def Header_Get_def SplitHostPort_def LastIndexByte_def
      split_checks_def)

text \<open>
  C9. A non-empty \<open>X-Forwarded-For\<close> that does not split (in particular one without a
  colon: a bare IPv4 address, or a list of them separated by commas) is returned whole.
\<close>

theorem forwarded_returned_whole:
  assumes "Header_Get r ''X-Forwarded-For'' \<noteq> []"
    and "SplitHostPort (Header_Get r ''X-Forwarded-For'') = Inl e \<or>
         CHR '':'' \<notin> set (Header_Get r ''X-Forwarded-For'')"
  shows "getIPAddress r = Header_Get r ''X-Forwarded-For''"
proof -
  from assms(2) SplitHostPort_no_colon [of "Header_Get r ''X-Forwarded-For''"]
  obtain e' where "SplitHostPort (Header_Get r ''X-Forwarded-For'') = Inl e'" by blast
  with assms(1) show ?thesis by (simp add: getIPAddress_def Let_def)
qed

theorem forwarded_returned_whole_witness:
  "Header_Get \<lparr>Method = ''POST'',
      Header = (\<lambda>k. if k = ''X-Forwarded-For'' then [''203.0.113.7, 70.41.3.18''] else []),
      RemoteAddr = ''10.0.0.1:4000''\<rparr> ''X-Forwarded-For'' \<noteq> [] \<and>
   SplitHostPort (Header_Get \<lparr>Method = ''POST'',
      Header = (\<lambda>k. if k = ''X-Forwarded-For'' then [''203.0.113.7, 70.41.3.18''] else []),
      RemoteAddr = ''10.0.0.1:4000''\<rparr> ''X-Forwarded-For'') = Inl MissingPort \<and>
   getIPAddress \<lparr>Method = ''POST'',
      Header = (\<lambda>k. if k = ''X-Forwarded-For'' then [''203.0.113.7, 70.41.3.18''] else []),
      RemoteAddr = ''10.0.0.1:4000''\<rparr> = ''203.0.113.7, 70.41.3.18'' \<and>
   getIPAddress \<lparr>Method = ''POST'',
      Header = (\<lambda>k. if k = ''X-Forwarded-For'' then [''203.0.113.7, 70.41.3.18''] else []),
      RemoteAddr = ''10.0.0.1:4000''\<rparr> \<noteq> ''203.0.113.7''"
proof -
  let ?r = "\<lparr>Method = ''POST'',
      Header = (\<lambda>k. if k = ''X-Forwarded-For'' then [''203.0.113.7, 70.41.3.18''] else []),
      RemoteAddr = ''10.0.0.1:4000''\<rparr>"
  have x: "Header_Get ?r ''X-Forwarded-For'' = ''203.0.113.7, 70.41.3.18''"
    by (simp add: Header_Get_def)
  have s: "SplitHostPort ''203.0.113.7, 70.41.3.18'' = Inl MissingPort"
    by (simp add: SplitHostPort_def LastIndexByte_def)
  have n: "Header_Get ?r ''X-Forwarded-For'' \<noteq> []" by (simp add: x)
  have d: "SplitHostPort (Header_Get ?r ''X-Forwarded-For'') = Inl MissingPort \<or>
         CHR '':'' \<notin> set (Header_Get ?r ''X-Forwarded-For'')"
    by (simp add: x s)
  from forwarded_returned_whole [OF n d] x s show ?thesis by simp
qed

section \<open>The limiter's map\<close>

lemma update_absent: "map_of m k = None \<Longrightarrow> AList.update k v m = m @ [(k, v)]"
  by (induction m) (auto split: if_splits)

lemma delete_filter: "AList.delete k m = filter (\<lambda>p. fst p \<noteq> k) m"
  by (induction m) auto

lemma sweep_heap: "heap (sweep ks n s) = heap s"
  by (induction ks arbitrary: n s) (simp_all add: Let_def)

lemma sweep_limiters:
  "n \<le> 5000 \<Longrightarrow>
     limiters (sweep ks n s) = filter (\<lambda>p. fst p \<notin> set (take (5001 - n) ks)) (limiters s)"
proof (induction ks arbitrary: n s)
  case Nil
  then show ?case by simp
next
  case (Cons k ks)
  show ?case
  proof (cases "n = 5000")
    case True
    then show ?thesis by (simp add: Let_def delete_filter)
  next
    case False
    with Cons.prems have n: "Suc n \<le> 5000" by simp
    from n have t: "5001 - n = Suc (5001 - Suc n)" by simp
    have "take (5001 - n) (k # ks) = k # take (5001 - Suc n) ks"
      by (simp only: t take_Suc_Cons)
    with n Cons.IH [OF n] show ?thesis
      by (simp add: Let_def delete_filter conj_commute)
  qed
qed

lemma sweep_trace:
  "n \<le> 5000 \<Longrightarrow> trace (sweep ks n s) = trace s @ map Delete (take (5001 - n) ks)"
proof (induction ks arbitrary: n s)
  case Nil
  then show ?case by simp
next
  case (Cons k ks)
  show ?case
  proof (cases "n = 5000")
    case True
    then show ?thesis by (simp add: Let_def)
  next
    case False
    with Cons.prems have n: "Suc n \<le> 5000" by simp
    from n have t: "5001 - n = Suc (5001 - Suc n)" by simp
    have "take (5001 - n) (k # ks) = k # take (5001 - Suc n) ks"
      by (simp only: t take_Suc_Cons)
    with n Cons.IH [OF n] show ?thesis
      by (simp add: Let_def)
  qed
qed

lemma length_filter_keys:
  assumes "distinct (keys_of m)" and "distinct ds" and "set ds \<subseteq> set (keys_of m)"
  shows "length (filter (\<lambda>p. fst p \<notin> set ds) m) = length m - length ds"
proof -
  have "map fst (filter (\<lambda>p. fst p \<in> set ds) m) = filter (\<lambda>k. k \<in> set ds) (keys_of m)"
    by (simp add: keys_of_def filter_map comp_def)
  moreover have "distinct (filter (\<lambda>k. k \<in> set ds) (keys_of m))"
    using assms(1) by simp
  moreover have "set (filter (\<lambda>k. k \<in> set ds) (keys_of m)) = set ds"
    using assms(3) by auto
  ultimately have "length (map fst (filter (\<lambda>p. fst p \<in> set ds) m)) = length ds"
    using assms(2) by (metis distinct_card)
  then have "length (filter (\<lambda>p. fst p \<in> set ds) m) = length ds" by simp
  with sum_length_filter_compl [of "\<lambda>p. fst p \<in> set ds" m] show ?thesis by simp
qed

lemma getLimiter_tracked:
  "map_of (limiters s) ip = Some p \<Longrightarrow>
     getLimiter seed ip rpm s = (p, s\<lparr>trace := trace s @ [Lock, Lookup ip, Unlock]\<rparr>)"
  by (simp add: getLimiter_def Let_def)

lemma getLimiter_created:
  assumes "map_of (limiters s) ip = None" and "length (limiters s) < 10000"
  shows "getLimiter seed ip rpm s =
           (length (heap s),
            s\<lparr>limiters := limiters s @ [(ip, length (heap s))],
              heap := heap s @ [NewLimiter (real_of_int rpm / 60) rpm],
              trace := trace s @ [Lock, Lookup ip, Assign ip, Unlock]\<rparr>)"
  using assms by (simp add: getLimiter_def Let_def update_absent)

lemma getLimiter_swept:
  assumes "map_of (limiters s) ip = None" and "10000 \<le> length (limiters s)"
  shows "getLimiter seed ip rpm s =
           (length (heap s),
            s\<lparr>limiters :=
                filter (\<lambda>p. fst p \<notin> set (take 5001
                          (range_order seed (limiters s @ [(ip, length (heap s))]))))
                  (limiters s @ [(ip, length (heap s))]),
              heap := heap s @ [NewLimiter (real_of_int rpm / 60) rpm],
              trace := trace s @ [Lock, Lookup ip, Assign ip] @
                map Delete (take 5001 (range_order seed (limiters s @ [(ip, length (heap s))]))) @
                [Unlock]\<rparr>)"
proof -
  let ?m = "limiters s @ [(ip, length (heap s))]"
  let ?s2 = "s\<lparr>trace := trace s @ [Lock, Lookup ip],
               heap := heap s @ [NewLimiter (real_of_int rpm / 60) rpm],
               limiters := ?m,
               trace := trace s @ [Lock, Lookup ip] @ [Assign ip]\<rparr>"
  have l: "limiters (sweep (range_order seed ?m) 0 ?s2) =
             filter (\<lambda>p. fst p \<notin> set (take 5001 (range_order seed ?m))) ?m"
    using sweep_limiters [of 0 "range_order seed ?m" ?s2] by simp
  have t: "trace (sweep (range_order seed ?m) 0 ?s2) =
             trace s @ [Lock, Lookup ip, Assign ip] @ map Delete (take 5001 (range_order seed ?m))"
    using sweep_trace [of 0 "range_order seed ?m" ?s2] by simp
  have h: "heap (sweep (range_order seed ?m) 0 ?s2) = heap s @ [NewLimiter (real_of_int rpm / 60) rpm]"
    by (simp add: sweep_heap)
  have "sweep (range_order seed ?m) 0 ?s2 =
          s\<lparr>limiters := filter (\<lambda>p. fst p \<notin> set (take 5001 (range_order seed ?m))) ?m,
            heap := heap s @ [NewLimiter (real_of_int rpm / 60) rpm],
            trace := trace s @ [Lock, Lookup ip, Assign ip] @
              map Delete (take 5001 (range_order seed ?m))\<rparr>"
    using l t h by (intro Limiters.equality) simp_all
  with assms show ?thesis
    by (simp add: getLimiter_def Let_def update_absent)
qed

lemma map_of_None_keys: "map_of m k = None \<longleftrightarrow> k \<notin> set (keys_of m)"
  by (simp add: keys_of_def map_of_eq_None_iff)

lemma length_range_order:
  assumes "distinct (keys_of m)"
  shows "length (range_order seed m) = length m"
proof -
  have "length (range_order seed m) = card (set (range_order seed m))"
    using distinct_range_order [OF assms, of seed] by (simp add: distinct_card)
  also have "\<dots> = card (set (keys_of m))" by (simp add: set_range_order)
  also have "\<dots> = length (keys_of m)" using assms by (simp add: distinct_card)
  finally show ?thesis by (simp add: keys_of_def)
qed

lemma NewLimiters_wf: "wf_limiters NewLimiters"
  by (simp add: wf_limiters_def NewLimiters_def keys_of_def)

lemma getLimiter_swept_length:
  assumes "wf_limiters s" and "map_of (limiters s) ip = None" and "10000 \<le> length (limiters s)"
  shows "length (limiters (snd (getLimiter seed ip rpm s))) = length (limiters s) - 5000"
proof -
  let ?m = "limiters s @ [(ip, length (heap s))]"
  let ?ds = "take 5001 (range_order seed ?m)"
  from assms(1,2) have d: "distinct (keys_of ?m)"
    by (simp add: wf_limiters_def keys_of_def map_of_eq_None_iff)
  have "distinct ?ds" using distinct_range_order [OF d, of seed] by simp
  moreover have "set ?ds \<subseteq> set (keys_of ?m)"
    using set_take_subset [of 5001 "range_order seed ?m"] by (simp add: set_range_order)
  ultimately have "length (filter (\<lambda>p. fst p \<notin> set ?ds) ?m) = length ?m - length ?ds"
    using d by (intro length_filter_keys)
  moreover have "length ?ds = 5001"
    using assms(3) by (simp add: length_range_order [OF d])
  ultimately show ?thesis
    by (simp add: getLimiter_swept [OF assms(2,3)])
qed

lemma getLimiter_keys:
  "set (keys_of (limiters (snd (getLimiter seed ip rpm s)))) \<subseteq>
     insert ip (set (keys_of (limiters s)))"
proof (cases "map_of (limiters s) ip")
  case (Some p)
  then show ?thesis by (auto simp: getLimiter_tracked)
next
  case None
  show ?thesis
  proof (cases "length (limiters s) < 10000")
    case True
    with None show ?thesis by (auto simp: getLimiter_created keys_of_def)
  next
    case False
    then have "10000 \<le> length (limiters s)" by simp
    with None show ?thesis by (auto simp: getLimiter_swept keys_of_def)
  qed
qed

lemma getLimiter_wf:
  assumes "wf_limiters s"
  shows "wf_limiters (snd (getLimiter seed ip rpm s))"
proof (cases "map_of (limiters s) ip")
  case (Some p)
  with assms show ?thesis by (simp add: getLimiter_tracked wf_limiters_def)
next
  case None
  from assms None have d: "distinct (keys_of (limiters s @ [(ip, length (heap s))]))"
    by (simp add: wf_limiters_def keys_of_def map_of_eq_None_iff)
  from assms have a: "list_all (\<lambda>p. snd p < Suc (length (heap s))) (limiters s)"
    by (auto simp: wf_limiters_def list_all_iff)
  show ?thesis
  proof (cases "length (limiters s) < 10000")
    case True
    with None d a show ?thesis by (simp add: getLimiter_created wf_limiters_def)
  next
    case False
    then have g: "10000 \<le> length (limiters s)" by simp
    let ?m = "limiters s @ [(ip, length (heap s))]"
    let ?P = "\<lambda>p. fst p \<notin> set (take 5001 (range_order seed ?m))"
    have "distinct (keys_of (filter ?P ?m))"
      using d by (simp only: keys_of_def distinct_map_filter)
    moreover have "list_all (\<lambda>p. snd p < Suc (length (heap s))) (filter ?P ?m)"
      using a by (auto simp: list_all_iff)
    ultimately show ?thesis
      by (simp add: getLimiter_swept [OF None g] wf_limiters_def)
  qed
qed

lemma getLimiter_pointer:
  assumes "wf_limiters s"
  shows "fst (getLimiter seed ip rpm s) < length (heap (snd (getLimiter seed ip rpm s)))"
proof (cases "map_of (limiters s) ip")
  case (Some p)
  then have "(ip, p) \<in> set (limiters s)" by (rule map_of_SomeD)
  with assms have "p < length (heap s)" by (auto simp: wf_limiters_def list_all_iff)
  with Some show ?thesis by (simp add: getLimiter_tracked)
next
  case None
  show ?thesis
  proof (cases "length (limiters s) < 10000")
    case True
    with None show ?thesis by (simp add: getLimiter_created)
  next
    case False
    then have "10000 \<le> length (limiters s)" by simp
    with None show ?thesis by (simp add: getLimiter_swept)
  qed
qed

lemma getLimiter_bound:
  assumes "wf_limiters s" and "length (limiters s) \<le> 10000"
  shows "length (limiters (snd (getLimiter seed ip rpm s))) \<le> 10000"
proof (cases "map_of (limiters s) ip")
  case (Some p)
  with assms show ?thesis by (simp add: getLimiter_tracked)
next
  case None
  show ?thesis
  proof (cases "length (limiters s) < 10000")
    case True
    with None show ?thesis by (simp add: getLimiter_created)
  next
    case False
    then have "10000 \<le> length (limiters s)" by simp
    from getLimiter_swept_length [OF assms(1) None this] assms(2) show ?thesis by simp
  qed
qed

lemma Limiter_Allow_limiters: "limiters (snd (Limiter_Allow p now s)) = limiters s"
  by (simp add: Limiter_Allow_def split: prod.splits)

lemma Limiter_Allow_heap_length: "length (heap (snd (Limiter_Allow p now s))) = length (heap s)"
  by (simp add: Limiter_Allow_def split: prod.splits)

lemma Limiter_Allow_wf: "wf_limiters s \<Longrightarrow> wf_limiters (snd (Limiter_Allow p now s))"
  by (simp add: wf_limiters_def Limiter_Allow_limiters Limiter_Allow_heap_length)

lemma allow_limiters:
  "limiters (snd (allow now seed ip rpm s)) = limiters (snd (getLimiter seed ip rpm s))"
  by (simp add: allow_def Limiter_Allow_limiters split: prod.splits)

lemma allow_eq:
  "allow now seed ip rpm s =
     Limiter_Allow (fst (getLimiter seed ip rpm s)) now (snd (getLimiter seed ip rpm s))"
  by (simp add: allow_def split: prod.splits)

lemma allow_wf: "wf_limiters s \<Longrightarrow> wf_limiters (snd (allow now seed ip rpm s))"
  by (simp add: allow_eq Limiter_Allow_wf getLimiter_wf)

lemma allow_seq_Cons:
  "allow_seq (c # cs) rpm s =
     (fst (allow (fst c) (fst (snd c)) (snd (snd c)) rpm s) #
        fst (allow_seq cs rpm (snd (allow (fst c) (fst (snd c)) (snd (snd c)) rpm s))),
      snd (allow_seq cs rpm (snd (allow (fst c) (fst (snd c)) (snd (snd c)) rpm s))))"
  by (cases c) (simp split: prod.splits)

lemma allow_seq_append:
  "snd (allow_seq (xs @ ys) rpm s) = snd (allow_seq ys rpm (snd (allow_seq xs rpm s)))"
  by (induction xs arbitrary: s) (simp_all add: allow_seq_Cons)

lemma allow_seq_wf: "wf_limiters s \<Longrightarrow> wf_limiters (snd (allow_seq cs rpm s))"
  by (induction cs arbitrary: s) (simp_all add: allow_seq_Cons allow_wf)

lemma allow_seq_bound:
  "wf_limiters s \<Longrightarrow> length (limiters s) \<le> 10000 \<Longrightarrow>
     length (limiters (snd (allow_seq cs rpm s))) \<le> 10000"
proof (induction cs arbitrary: s)
  case Nil
  then show ?case by simp
next
  case (Cons c cs)
  let ?s1 = "snd (allow (fst c) (fst (snd c)) (snd (snd c)) rpm s)"
  have "wf_limiters ?s1" using Cons.prems(1) by (rule allow_wf)
  moreover have "length (limiters ?s1) \<le> 10000"
    using getLimiter_bound [OF Cons.prems] by (simp add: allow_limiters)
  ultimately show ?case using Cons.IH [of ?s1] by (simp add: allow_seq_Cons)
qed

lemma allow_seq_keys:
  "set (keys_of (limiters (snd (allow_seq cs rpm s)))) \<subseteq>
     set (keys_of (limiters s)) \<union> set (map (\<lambda>c. snd (snd c)) cs)"
proof (induction cs arbitrary: s)
  case Nil
  then show ?case by simp
next
  case (Cons c cs)
  let ?s1 = "snd (allow (fst c) (fst (snd c)) (snd (snd c)) rpm s)"
  have "set (keys_of (limiters ?s1)) \<subseteq> insert (snd (snd c)) (set (keys_of (limiters s)))"
    using getLimiter_keys [of "fst (snd c)" "snd (snd c)" rpm s] by (simp add: allow_limiters)
  with Cons.IH [of ?s1] show ?case by (auto simp: allow_seq_Cons)
qed

text \<open>Calls from new addresses, as long as the map stays within the threshold.\<close>

lemma allow_seq_fresh:
  assumes "distinct (map (\<lambda>c. snd (snd c)) cs)"
    and "set (map (\<lambda>c. snd (snd c)) cs) \<inter> set (keys_of (limiters s)) = {}"
    and "length (limiters s) + length cs \<le> 10000"
  shows "length (limiters (snd (allow_seq cs rpm s))) = length (limiters s) + length cs"
  using assms
proof (induction cs arbitrary: s)
  case Nil
  then show ?case by simp
next
  case (Cons c cs)
  let ?ip = "snd (snd c)"
  let ?s1 = "snd (allow (fst c) (fst (snd c)) ?ip rpm s)"
  from Cons.prems(2) have n: "map_of (limiters s) ?ip = None"
    by (simp add: map_of_None_keys)
  from Cons.prems(3) have l: "length (limiters s) < 10000" by simp
  have m: "limiters ?s1 = limiters s @ [(?ip, length (heap s))]"
    by (simp add: allow_limiters getLimiter_created [OF n l])
  have "length (limiters (snd (allow_seq cs rpm ?s1))) = length (limiters ?s1) + length cs"
  proof (rule Cons.IH)
    show "distinct (map (\<lambda>c. snd (snd c)) cs)" using Cons.prems(1) by simp
    show "set (map (\<lambda>c. snd (snd c)) cs) \<inter> set (keys_of (limiters ?s1)) = {}"
      using Cons.prems(1,2) by (auto simp: m keys_of_def)
    show "length (limiters ?s1) + length cs \<le> 10000" using Cons.prems(3) by (simp add: m)
  qed
  then show ?case by (simp add: allow_seq_Cons m)
qed

lemma addr_inj: "addr m = addr n \<longleftrightarrow> m = n"
proof
  assume "addr m = addr n"
  then have "length (addr m) = length (addr n)" by simp
  then show "m = n" by (simp add: addr_def)
qed simp

lemma calls_distinct: "distinct (map (\<lambda>c. snd (snd c)) (map call_from [a..<b]))"
  by (simp add: distinct_map comp_def call_from_def inj_on_def addr_inj)

lemma calls_addrs: "set (map (\<lambda>c. snd (snd c)) (map call_from [a..<b])) = addr ` {a..<b}"
  by (auto simp: call_from_def)

lemma upt_split: "a \<le> b \<Longrightarrow> b \<le> c \<Longrightarrow> [a..<c] = [a..<b] @ [b..<c]"
  by (metis le_Suc_ex upt_add_eq_append)

lemma fresh_run:
  assumes "n \<le> 10000"
  shows "length (limiters (snd (allow_seq (map call_from [0..<n]) rpm NewLimiters))) = n"
proof -
  have "length (limiters (snd (allow_seq (map call_from [0..<n]) rpm NewLimiters))) =
          length (limiters NewLimiters) + length (map call_from [0..<n])"
  proof (rule allow_seq_fresh)
    show "distinct (map (\<lambda>c. snd (snd c)) (map call_from [0..<n]))" by (rule calls_distinct)
    show "set (map (\<lambda>c. snd (snd c)) (map call_from [0..<n])) \<inter>
            set (keys_of (limiters NewLimiters)) = {}"
      by (simp add: NewLimiters_def keys_of_def)
    show "length (limiters NewLimiters) + length (map call_from [0..<n]) \<le> 10000"
      using assms by (simp add: NewLimiters_def)
  qed
  then show ?thesis by (simp add: NewLimiters_def)
qed

lemma run_keys:
  "set (keys_of (limiters (snd (allow_seq (map call_from [0..<n]) rpm NewLimiters)))) \<subseteq>
     addr ` {0..<n}"
  using allow_seq_keys [of "map call_from [0..<n]" rpm NewLimiters]
  by (simp only: calls_addrs) (simp add: NewLimiters_def keys_of_def)

lemma addr_untracked:
  "map_of (limiters (snd (allow_seq (map call_from [0..<n]) rpm NewLimiters))) (addr n) = None"
proof -
  have "addr n \<notin> addr ` {0..<n}" by (auto simp: addr_inj)
  with run_keys [of n rpm] show ?thesis by (auto simp: map_of_None_keys)
qed

lemma full_map:
  "length (limiters (snd (allow_seq (map call_from [0..<10000]) rpm NewLimiters))) = 10000"
  by (rule fresh_run) (rule order_refl)

lemma allow_seq_single:
  "snd (allow_seq [call_from n] rpm s) = snd (allow 0 [] (addr n) rpm s)"
  by (simp add: call_from_def split: prod.splits)

lemma after_sweep:
  "length (limiters (snd (allow_seq (map call_from [0..<Suc 10000]) rpm NewLimiters))) = 5000"
proof -
  let ?s = "snd (allow_seq (map call_from [0..<10000]) rpm NewLimiters)"
  have w: "wf_limiters ?s" using NewLimiters_wf by (rule allow_seq_wf)
  have l: "10000 \<le> length (limiters ?s)" by (simp only: full_map)
  have "length (limiters (snd (getLimiter [] (addr 10000) rpm ?s))) = length (limiters ?s) - 5000"
    using w addr_untracked l by (rule getLimiter_swept_length)
  then have "length (limiters (snd (allow 0 [] (addr 10000) rpm ?s))) = 5000"
    by (simp only: allow_limiters full_map)
  moreover have "map call_from [0..<Suc 10000] = map call_from [0..<10000] @ [call_from 10000]"
    by (simp only: upt_Suc_append [OF le0] map_append list.map)
  ultimately show ?thesis
    by (simp only: allow_seq_append allow_seq_single)
qed

lemma refilled_map:
  assumes "k \<le> 5000"
  shows "length (limiters (snd (allow_seq (map call_from [0..<Suc 10000 + k]) rpm NewLimiters))) =
           5000 + k"
proof -
  let ?s = "snd (allow_seq (map call_from [0..<Suc 10000]) rpm NewLimiters)"
  have sp: "[0..<Suc 10000 + k] = [0..<Suc 10000] @ [Suc 10000..<Suc 10000 + k]"
    by (rule upt_split) simp_all
  have "length (limiters (snd (allow_seq (map call_from [Suc 10000..<Suc 10000 + k]) rpm ?s))) =
          length (limiters ?s) + length (map call_from [Suc 10000..<Suc 10000 + k])"
  proof (rule allow_seq_fresh)
    show "distinct (map (\<lambda>c. snd (snd c)) (map call_from [Suc 10000..<Suc 10000 + k]))"
      by (rule calls_distinct)
    have "addr ` {Suc 10000..<Suc 10000 + k} \<inter> addr ` {0..<Suc 10000} = {}"
      by (auto simp: addr_inj)
    with run_keys [of "Suc 10000" rpm]
    show "set (map (\<lambda>c. snd (snd c)) (map call_from [Suc 10000..<Suc 10000 + k])) \<inter>
            set (keys_of (limiters ?s)) = {}"
      by (simp only: calls_addrs) blast
    show "length (limiters ?s) + length (map call_from [Suc 10000..<Suc 10000 + k]) \<le> 10000"
      using assms by (simp only: after_sweep) simp
  qed
  then show ?thesis
    by (simp only: sp map_append allow_seq_append after_sweep) simp
qed

text \<open>
  C4, as the code has it. Whatever calls the limiter has served since start, the
  number of tracked addresses is at most the threshold. A creation that finds fewer
  than 10000 addresses tracked adds one and removes none; a creation that finds 10000
  (so that the new entry makes 10001, more than the threshold) removes 5001 entries
  and leaves 5000, whatever the order of the sweep.
\<close>

theorem eviction_bound:
  "length (limiters (snd (allow_seq cs rpm NewLimiters))) \<le> 10000 \<and>
   (map_of (limiters (snd (allow_seq cs rpm NewLimiters))) ip = None \<and>
    length (limiters (snd (allow_seq cs rpm NewLimiters))) < 10000 \<longrightarrow>
      length (limiters (snd (allow now seed ip rpm' (snd (allow_seq cs rpm NewLimiters))))) =
        length (limiters (snd (allow_seq cs rpm NewLimiters))) + 1) \<and>
   (map_of (limiters (snd (allow_seq cs rpm NewLimiters))) ip = None \<and>
    length (limiters (snd (allow_seq cs rpm NewLimiters))) = 10000 \<longrightarrow>
      length (limiters (snd (allow now seed ip rpm' (snd (allow_seq cs rpm NewLimiters))))) =
        5000)"
proof (intro conjI impI)
  let ?s = "snd (allow_seq cs rpm NewLimiters)"
  have w: "wf_limiters ?s" using NewLimiters_wf by (rule allow_seq_wf)
  show "length (limiters ?s) \<le> 10000"
    using NewLimiters_wf by (rule allow_seq_bound) (simp add: NewLimiters_def)
  {
    assume a: "map_of (limiters ?s) ip = None \<and> length (limiters ?s) < 10000"
    then have n: "map_of (limiters ?s) ip = None" and l: "length (limiters ?s) < 10000"
      by simp_all
    show "length (limiters (snd (allow now seed ip rpm' ?s))) = length (limiters ?s) + 1"
      by (simp add: allow_limiters getLimiter_created [OF n l])
  }
  {
    assume a: "map_of (limiters ?s) ip = None \<and> length (limiters ?s) = 10000"
    then have n: "map_of (limiters ?s) ip = None" and l: "10000 \<le> length (limiters ?s)"
      by simp_all
    from getLimiter_swept_length [OF w n l, of seed rpm'] a
    show "length (limiters (snd (allow now seed ip rpm' ?s))) = 5000"
      by (simp add: allow_limiters)
  }
qed

theorem eviction_bound_witness:
  "map_of (limiters (snd (allow_seq (map call_from [0..<10000]) 5 NewLimiters))) (addr 10000) = None \<and>
   length (limiters (snd (allow_seq (map call_from [0..<10000]) 5 NewLimiters))) = 10000 \<and>
   length (limiters (snd (allow 0 [] (addr 10000) 5
     (snd (allow_seq (map call_from [0..<10000]) 5 NewLimiters))))) = 5000 \<and>
   map_of (limiters (snd (allow_seq (map call_from [0..<3]) 5 NewLimiters))) (addr 3) = None \<and>
   length (limiters (snd (allow_seq (map call_from [0..<3]) 5 NewLimiters))) < 10000 \<and>
   length (limiters (snd (allow 0 [] (addr 3) 5
     (snd (allow_seq (map call_from [0..<3]) 5 NewLimiters))))) = 4"
proof -
  have a: "map_of (limiters (snd (allow_seq (map call_from [0..<10000]) 5 NewLimiters)))
             (addr 10000) = None"
    by (rule addr_untracked)
  have b: "length (limiters (snd (allow_seq (map call_from [0..<10000]) 5 NewLimiters))) = 10000"
    by (rule full_map)
  have c: "map_of (limiters (snd (allow_seq (map call_from [0..<3]) 5 NewLimiters))) (addr 3) = None"
    by (rule addr_untracked)
  have d: "length (limiters (snd (allow_seq (map call_from [0..<3]) 5 NewLimiters))) = 3"
    by (rule fresh_run) simp
  from eviction_bound [of "map call_from [0..<10000]" 5 "addr 10000" 0 "[]" 5] a b
  have e: "length (limiters (snd (allow 0 [] (addr 10000) 5
     (snd (allow_seq (map call_from [0..<10000]) 5 NewLimiters))))) = 5000"
    by blast
  from eviction_bound [of "map call_from [0..<3]" 5 "addr 3" 0 "[]" 5] c d
  have f: "length (limiters (snd (allow 0 [] (addr 3) 5
     (snd (allow_seq (map call_from [0..<3]) 5 NewLimiters))))) = 4"
    by (simp only:) simp
  from a b c d e f show ?thesis by (simp only:) simp
qed

text \<open>
  15001 calls from 15001 different addresses: the 10001st creation sweeps, the 5000
  that follow fill the map up again, and 10000 addresses are tracked at the end, which
  is the threshold and not less.
\<close>

theorem eviction_bound_counterexample:
  "\<not> length (limiters (snd (allow_seq (map call_from [0..<15001]) 5 NewLimiters))) < 10000"
proof -
  have "(15001::nat) = Suc 10000 + 5000" by simp
  moreover have "length (limiters (snd (allow_seq (map call_from [0..<Suc 10000 + 5000]) 5
      NewLimiters))) = 5000 + 5000"
    by (rule refilled_map) (rule order_refl)
  ultimately have "length (limiters (snd (allow_seq (map call_from [0..<15001]) 5 NewLimiters))) =
      5000 + 5000"
    by (simp only:)
  then show ?thesis by (simp only:)
qed

section \<open>The token bucket\<close>

lemma map_of_snoc: "map_of m k = None \<Longrightarrow> map_of (m @ [(k, v)]) k = Some v"
  by (induction m) auto

lemma allow_created:
  assumes "map_of (limiters s) ip = None" and "length (limiters s) < 10000"
  shows "fst (allow now seed ip rpm s) = fst (Allow now (NewLimiter (real_of_int rpm / 60) rpm))"
    and "map_of (limiters (snd (allow now seed ip rpm s))) ip = Some (length (heap s))"
    and "length (heap s) < length (heap (snd (allow now seed ip rpm s)))"
    and "heap (snd (allow now seed ip rpm s)) ! length (heap s) =
           snd (Allow now (NewLimiter (real_of_int rpm / 60) rpm))"
  using assms map_of_snoc [OF assms(1), of "length (heap s)"]
  by (simp_all add: allow_eq getLimiter_created Limiter_Allow_def split: prod.splits)

lemma allow_tracked:
  assumes "map_of (limiters s) ip = Some p" and "p < length (heap s)"
  shows "fst (allow now seed ip rpm s) = fst (Allow now (heap s ! p))"
    and "map_of (limiters (snd (allow now seed ip rpm s))) ip = Some p"
    and "p < length (heap (snd (allow now seed ip rpm s)))"
    and "heap (snd (allow now seed ip rpm s)) ! p = snd (Allow now (heap s ! p))"
  using assms
  by (simp_all add: allow_eq getLimiter_tracked Limiter_Allow_def split: prod.splits)

lemma refilled_new:
  assumes "0 < rpm"
  shows "refilled now (NewLimiter (real_of_int rpm / 60) rpm) = real_of_int rpm"
proof -
  have "0 \<le> max 0 (now - 0) * (real_of_int rpm / 60)" using assms by simp
  then have "min (real_of_int rpm) (real_of_int rpm + max 0 (now - 0) * (real_of_int rpm / 60)) =
               real_of_int rpm"
    by linarith
  then show ?thesis by (simp only: refilled_def NewLimiter_def Limiter.simps)
qed

lemma refilled_bucket:
  assumes "rate_limit l = 1 / 12" and "burst l = 5" and "last_time l \<le> now"
  shows "refilled now l = min 5 (tokens l + (now - last_time l) / 12)"
proof -
  from assms(3) have "max 0 (now - last_time l) = now - last_time l" by simp
  then show ?thesis by (simp add: refilled_def assms(1,2))
qed

lemma Allow_first:
  assumes "0 < rpm"
  shows "Allow now (NewLimiter (real_of_int rpm / 60) rpm) =
       (True, \<lparr>rate_limit = real_of_int rpm / 60, burst = rpm,
               tokens = real_of_int rpm - 1, last_time = now\<rparr>)"
proof -
  from assms have "1 \<le> real_of_int rpm" by simp
  then show ?thesis
    by (simp add: Allow_def Let_def refilled_new [OF assms]) (simp add: NewLimiter_def)
qed

lemma Allow_granted:
  assumes "rate_limit l = 1 / 12" and "burst l = 5" and "last_time l \<le> now"
    and "1 \<le> tokens l + (now - last_time l) / 12"
    and "tokens l + (now - last_time l) / 12 \<le> 5"
  shows "Allow now l =
           (True, l\<lparr>tokens := tokens l + (now - last_time l) / 12 - 1, last_time := now\<rparr>)"
proof -
  from assms(5) have "refilled now l = tokens l + (now - last_time l) / 12"
    by (simp add: refilled_bucket [OF assms(1-3)])
  with assms(4) show ?thesis by (simp add: Allow_def Let_def)
qed

lemma Allow_denied:
  assumes "rate_limit l = 1 / 12" and "burst l = 5" and "last_time l \<le> now"
    and "tokens l + (now - last_time l) / 12 < 1"
  shows "Allow now l =
           (False, l\<lparr>tokens := tokens l + (now - last_time l) / 12, last_time := now\<rparr>)"
proof -
  from assms(4) have "refilled now l = tokens l + (now - last_time l) / 12"
    by (simp add: refilled_bucket [OF assms(1-3)])
  with assms(4) show ?thesis by (simp add: Allow_def Let_def)
qed

lemma Allow_after_a_minute:
  assumes "rate_limit l = 1 / 12" and "burst l = 5" and "0 \<le> tokens l"
    and "last_time l + 60 \<le> now"
  shows "fst (Allow now l)"
proof -
  from assms(4) have n: "last_time l \<le> now" by simp
  from assms(4) have "60 \<le> now - last_time l" by simp
  then have "5 \<le> (now - last_time l) / 12" by simp
  with assms(3) have "5 \<le> tokens l + (now - last_time l) / 12" by (rule add_increasing)
  then have "refilled now l = 5"
    by (simp add: refilled_bucket [OF assms(1,2) n])
  then show ?thesis by (simp add: Allow_def Let_def)
qed

lemma bucket_granted:
  assumes "rate_limit l = 1 / 12" and "burst l = 5"
    and "tokens l = k + 1 + (last_time l - t1) / 12"
    and "t1 \<le> last_time l" and "last_time l \<le> now" and "now \<le> t1 + 1"
    and "0 \<le> k" and "k \<le> 3"
  shows "fst (Allow now l)"
    and "rate_limit (snd (Allow now l)) = 1 / 12"
    and "burst (snd (Allow now l)) = 5"
    and "tokens (snd (Allow now l)) = k + (now - t1) / 12"
    and "last_time (snd (Allow now l)) = now"
proof -
  have e: "tokens l + (now - last_time l) / 12 = k + 1 + (now - t1) / 12"
    by (simp add: assms(3) diff_divide_distrib)
  from assms(4,5) have "0 \<le> (now - t1) / 12" by simp
  with assms(7) have lo: "1 \<le> tokens l + (now - last_time l) / 12" by (simp add: e)
  from assms(6) have q: "(now - t1) / 12 \<le> 1" by simp
  have "k + 1 + (now - t1) / 12 \<le> 3 + 1 + 1"
    by (intro add_mono assms(8) q order_refl)
  then have hi: "tokens l + (now - last_time l) / 12 \<le> 5" by (simp add: e)
  note a = Allow_granted [OF assms(1,2,5) lo hi]
  show "fst (Allow now l)" by (simp add: a)
  show "rate_limit (snd (Allow now l)) = 1 / 12" by (simp add: a assms(1))
  show "burst (snd (Allow now l)) = 5" by (simp add: a assms(2))
  show "tokens (snd (Allow now l)) = k + (now - t1) / 12" by (simp add: a e)
  show "last_time (snd (Allow now l)) = now" by (simp add: a)
qed

lemma bucket_denied:
  assumes "rate_limit l = 1 / 12" and "burst l = 5"
    and "tokens l = (last_time l - t1) / 12"
    and "t1 \<le> last_time l" and "last_time l \<le> now" and "now \<le> t1 + 1"
  shows "\<not> fst (Allow now l)"
    and "rate_limit (snd (Allow now l)) = 1 / 12"
    and "burst (snd (Allow now l)) = 5"
    and "0 \<le> tokens (snd (Allow now l))"
    and "last_time (snd (Allow now l)) = now"
proof -
  have e: "tokens l + (now - last_time l) / 12 = (now - t1) / 12"
    by (simp add: assms(3) diff_divide_distrib)
  from assms(6) have lt: "tokens l + (now - last_time l) / 12 < 1" by (simp add: e)
  from assms(4,5) have nn: "0 \<le> (now - t1) / 12" by simp
  note a = Allow_denied [OF assms(1,2,5) lt]
  show "\<not> fst (Allow now l)" by (simp add: a)
  show "rate_limit (snd (Allow now l)) = 1 / 12" by (simp add: a assms(1))
  show "burst (snd (Allow now l)) = 5" by (simp add: a assms(2))
  show "0 \<le> tokens (snd (Allow now l))" using nn by (simp add: a e)
  show "last_time (snd (Allow now l)) = now" by (simp add: a)
qed

text \<open>
  The answers to an address that is not yet tracked, the map holding fewer than 10000
  addresses, when seven calls in a row come from it: six within one second and the
  seventh 60 seconds or more after the sixth.
\<close>

lemma fresh_bucket_run:
  assumes "map_of (limiters s) ip = None" and "length (limiters s) < 10000"
    and "t1 \<le> t2" and "t2 \<le> t3" and "t3 \<le> t4" and "t4 \<le> t5" and "t5 \<le> t6"
    and "t6 \<le> t1 + 1" and "t6 + 60 \<le> t7"
  shows "fst (allow_seq [(t1, sd1, ip), (t2, sd2, ip), (t3, sd3, ip), (t4, sd4, ip),
                         (t5, sd5, ip), (t6, sd6, ip), (t7, sd7, ip)] 5 s) =
           [True, True, True, True, True, False, True]"
proof -
  let ?p = "length (heap s)"
  let ?s1 = "snd (allow t1 sd1 ip 5 s)"
  let ?s2 = "snd (allow t2 sd2 ip 5 ?s1)"
  let ?s3 = "snd (allow t3 sd3 ip 5 ?s2)"
  let ?s4 = "snd (allow t4 sd4 ip 5 ?s3)"
  let ?s5 = "snd (allow t5 sd5 ip 5 ?s4)"
  let ?s6 = "snd (allow t6 sd6 ip 5 ?s5)"
  note c = allow_created [OF assms(1,2), of t1 sd1 5]
  have f: "Allow t1 (NewLimiter (1 / 12) 5) =
             (True, \<lparr>rate_limit = 1 / 12, burst = 5, tokens = 4, last_time = t1\<rparr>)"
    using Allow_first [of 5 t1] by simp
  have r1: "fst (allow t1 sd1 ip 5 s)" by (simp add: c(1) f)
  have m1: "map_of (limiters ?s1) ip = Some ?p" by (rule c(2))
  have h1: "?p < length (heap ?s1)" by (rule c(3))
  have b1: "rate_limit (heap ?s1 ! ?p) = 1 / 12" "burst (heap ?s1 ! ?p) = 5"
    "tokens (heap ?s1 ! ?p) = 3 + 1 + (last_time (heap ?s1 ! ?p) - t1) / 12"
    "last_time (heap ?s1 ! ?p) = t1"
    by (simp_all add: c(4) f)
  note a2 = allow_tracked [OF m1 h1, of t2 sd2 5]
  have g2: "t1 \<le> last_time (heap ?s1 ! ?p)" "last_time (heap ?s1 ! ?p) \<le> t2" "t2 \<le> t1 + 1"
    using assms by (simp_all add: b1(4))
  note k2 = bucket_granted [OF b1(1,2,3) g2]
  have r2: "fst (allow t2 sd2 ip 5 ?s1)" using k2(1) by (simp add: a2(1))
  have b2: "rate_limit (heap ?s2 ! ?p) = 1 / 12" "burst (heap ?s2 ! ?p) = 5"
    "tokens (heap ?s2 ! ?p) = 2 + 1 + (last_time (heap ?s2 ! ?p) - t1) / 12"
    "last_time (heap ?s2 ! ?p) = t2"
    using k2 by (simp_all add: a2(4))
  note a3 = allow_tracked [OF a2(2,3), of t3 sd3 5]
  have g3: "t1 \<le> last_time (heap ?s2 ! ?p)" "last_time (heap ?s2 ! ?p) \<le> t3" "t3 \<le> t1 + 1"
    using assms by (simp_all add: b2(4))
  note k3 = bucket_granted [OF b2(1,2,3) g3]
  have r3: "fst (allow t3 sd3 ip 5 ?s2)" using k3(1) by (simp add: a3(1))
  have b3: "rate_limit (heap ?s3 ! ?p) = 1 / 12" "burst (heap ?s3 ! ?p) = 5"
    "tokens (heap ?s3 ! ?p) = 1 + 1 + (last_time (heap ?s3 ! ?p) - t1) / 12"
    "last_time (heap ?s3 ! ?p) = t3"
    using k3 by (simp_all add: a3(4))
  note a4 = allow_tracked [OF a3(2,3), of t4 sd4 5]
  have g4: "t1 \<le> last_time (heap ?s3 ! ?p)" "last_time (heap ?s3 ! ?p) \<le> t4" "t4 \<le> t1 + 1"
    using assms by (simp_all add: b3(4))
  note k4 = bucket_granted [OF b3(1,2,3) g4]
  have r4: "fst (allow t4 sd4 ip 5 ?s3)" using k4(1) by (simp add: a4(1))
  have b4: "rate_limit (heap ?s4 ! ?p) = 1 / 12" "burst (heap ?s4 ! ?p) = 5"
    "tokens (heap ?s4 ! ?p) = 0 + 1 + (last_time (heap ?s4 ! ?p) - t1) / 12"
    "last_time (heap ?s4 ! ?p) = t4"
    using k4 by (simp_all add: a4(4))
  note a5 = allow_tracked [OF a4(2,3), of t5 sd5 5]
  have g5: "t1 \<le> last_time (heap ?s4 ! ?p)" "last_time (heap ?s4 ! ?p) \<le> t5" "t5 \<le> t1 + 1"
    using assms by (simp_all add: b4(4))
  note k5 = bucket_granted [OF b4(1,2,3) g5]
  have r5: "fst (allow t5 sd5 ip 5 ?s4)" using k5(1) by (simp add: a5(1))
  have b5: "rate_limit (heap ?s5 ! ?p) = 1 / 12" "burst (heap ?s5 ! ?p) = 5"
    "tokens (heap ?s5 ! ?p) = (last_time (heap ?s5 ! ?p) - t1) / 12"
    "last_time (heap ?s5 ! ?p) = t5"
    using k5 by (simp_all add: a5(4))
  note a6 = allow_tracked [OF a5(2,3), of t6 sd6 5]
  have g6: "t1 \<le> last_time (heap ?s5 ! ?p)" "last_time (heap ?s5 ! ?p) \<le> t6" "t6 \<le> t1 + 1"
    using assms by (simp_all add: b5(4))
  note k6 = bucket_denied [OF b5(1,2,3) g6]
  have r6: "\<not> fst (allow t6 sd6 ip 5 ?s5)" using k6(1) by (simp add: a6(1))
  have b6: "rate_limit (heap ?s6 ! ?p) = 1 / 12" "burst (heap ?s6 ! ?p) = 5"
    "0 \<le> tokens (heap ?s6 ! ?p)" "last_time (heap ?s6 ! ?p) + 60 \<le> t7"
    using k6 assms(9) by (simp_all add: a6(4))
  note a7 = allow_tracked [OF a6(2,3), of t7 sd7 5]
  have r7: "fst (allow t7 sd7 ip 5 ?s6)"
    using Allow_after_a_minute [OF b6] by (simp add: a7(1))
  from r1 r2 r3 r4 r5 r6 r7 show ?thesis
    by (simp add: allow_seq_Cons)
qed

section \<open>A sweep that deletes the entry just created\<close>

lemma range_order_first:
  "ip \<in> set (keys_of m) \<Longrightarrow>
     range_order [ip] m = ip # filter (\<lambda>k. k \<noteq> ip) (keys_of m)"
  by (simp add: range_order_def)

lemma getLimiter_swept_self:
  assumes "wf_limiters s" and "map_of (limiters s) ip = None" and "10000 \<le> length (limiters s)"
  shows "map_of (limiters (snd (getLimiter [ip] ip rpm s))) ip = None"
    and "fst (getLimiter [ip] ip rpm s) = length (heap s)"
    and "length (heap s) \<notin> snd ` set (limiters (snd (getLimiter [ip] ip rpm s)))"
    and "heap (snd (getLimiter [ip] ip rpm s)) =
           heap s @ [NewLimiter (real_of_int rpm / 60) rpm]"
proof -
  let ?m = "limiters s @ [(ip, length (heap s))]"
  let ?ds = "take 5001 (range_order [ip] ?m)"
  have "ip \<in> set (keys_of ?m)" by (simp add: keys_of_def)
  then have "range_order [ip] ?m = ip # filter (\<lambda>k. k \<noteq> ip) (keys_of ?m)"
    by (rule range_order_first)
  then have i: "ip \<in> set ?ds" by simp
  note g = getLimiter_swept [OF assms(2,3), of "[ip]" rpm]
  from i show "map_of (limiters (snd (getLimiter [ip] ip rpm s))) ip = None"
    by (auto simp: g map_of_eq_None_iff)
  show "fst (getLimiter [ip] ip rpm s) = length (heap s)" by (simp add: g)
  from assms(1) have "\<forall>p \<in> set (limiters s). snd p \<noteq> length (heap s)"
    by (auto simp: wf_limiters_def list_all_iff)
  with i show "length (heap s) \<notin> snd ` set (limiters (snd (getLimiter [ip] ip rpm s)))"
    by (auto simp: g)
  show "heap (snd (getLimiter [ip] ip rpm s)) = heap s @ [NewLimiter (real_of_int rpm / 60) rpm]"
    by (simp add: g)
qed

text \<open>
  C10. The map holds 10000 addresses and \<open>ip\<close> is not one of them, so the creation
  of its bucket sweeps. Under the order that visits the new key first (seed \<open>[ip]\<close>)
  the sweep deletes the entry just stored: after \<open>getLimiter\<close> the address is not
  tracked and no entry of the map holds the pointer that was returned. The next
  \<open>getLimiter\<close> for the address, after the \<open>Allow\<close> on the returned limiter and
  whatever its own seed, allocates another limiter, stores it under the address, and
  that limiter holds a full burst.
\<close>

theorem sweep_deletes_new_entry:
  assumes "wf_limiters s" and "map_of (limiters s) ip = None"
    and "length (limiters s) = 10000"
  shows "map_of (limiters (snd (getLimiter [ip] ip rpm s))) ip = None \<and>
         fst (getLimiter [ip] ip rpm s) \<notin> snd ` set (limiters (snd (getLimiter [ip] ip rpm s))) \<and>
         fst (getLimiter seed ip rpm (snd (allow now [ip] ip rpm s))) \<noteq>
           fst (getLimiter [ip] ip rpm s) \<and>
         map_of (limiters (snd (getLimiter seed ip rpm (snd (allow now [ip] ip rpm s))))) ip =
           Some (fst (getLimiter seed ip rpm (snd (allow now [ip] ip rpm s)))) \<and>
         heap (snd (getLimiter seed ip rpm (snd (allow now [ip] ip rpm s)))) !
             fst (getLimiter seed ip rpm (snd (allow now [ip] ip rpm s))) =
           NewLimiter (real_of_int rpm / 60) rpm \<and>
         tokens (heap (snd (getLimiter seed ip rpm (snd (allow now [ip] ip rpm s)))) !
             fst (getLimiter seed ip rpm (snd (allow now [ip] ip rpm s)))) =
           real_of_int rpm"
proof -
  from assms(3) have l: "10000 \<le> length (limiters s)" by simp
  note a = getLimiter_swept_self [OF assms(1,2) l, of rpm]
  let ?s1 = "snd (allow now [ip] ip rpm s)"
  have m1: "limiters ?s1 = limiters (snd (getLimiter [ip] ip rpm s))"
    by (rule allow_limiters)
  have n1: "map_of (limiters ?s1) ip = None" by (simp only: m1 a(1))
  have "length (limiters ?s1) = length (limiters s) - 5000"
    by (simp only: m1 getLimiter_swept_length [OF assms(1,2) l])
  with assms(3) have l1: "length (limiters ?s1) < 10000" by simp
  have h1: "length (heap ?s1) = Suc (length (heap s))"
    by (simp add: allow_eq Limiter_Allow_heap_length a(4))
  note c = getLimiter_created [OF n1 l1, of seed rpm]
  have p: "fst (getLimiter seed ip rpm ?s1) = Suc (length (heap s))"
    by (simp add: c h1)
  have "map_of (limiters (snd (getLimiter seed ip rpm ?s1))) ip = Some (length (heap ?s1))"
    using map_of_snoc [OF n1, of "length (heap ?s1)"] by (simp add: c)
  moreover have "heap (snd (getLimiter seed ip rpm ?s1)) ! length (heap ?s1) =
      NewLimiter (real_of_int rpm / 60) rpm"
    by (simp add: c)
  ultimately show ?thesis
    using a(1,2,3) p h1 by (simp add: NewLimiter_def)
qed

theorem sweep_deletes_new_entry_witness:
  "wf_limiters (snd (allow_seq (map call_from [0..<10000]) 5 NewLimiters)) \<and>
   map_of (limiters (snd (allow_seq (map call_from [0..<10000]) 5 NewLimiters))) (addr 10000) = None \<and>
   length (limiters (snd (allow_seq (map call_from [0..<10000]) 5 NewLimiters))) = 10000 \<and>
   map_of (limiters (snd (getLimiter [addr 10000] (addr 10000) 5
      (snd (allow_seq (map call_from [0..<10000]) 5 NewLimiters))))) (addr 10000) = None \<and>
   tokens (heap (snd (getLimiter [] (addr 10000) 5 (snd (allow 0 [addr 10000] (addr 10000) 5
      (snd (allow_seq (map call_from [0..<10000]) 5 NewLimiters)))))) !
        fst (getLimiter [] (addr 10000) 5 (snd (allow 0 [addr 10000] (addr 10000) 5
      (snd (allow_seq (map call_from [0..<10000]) 5 NewLimiters)))))) = 5"
proof -
  let ?s = "snd (allow_seq (map call_from [0..<10000]) 5 NewLimiters)"
  have w: "wf_limiters ?s" using NewLimiters_wf by (rule allow_seq_wf)
  have n: "map_of (limiters ?s) (addr 10000) = None" by (rule addr_untracked)
  have l: "length (limiters ?s) = 10000" by (rule full_map)
  from sweep_deletes_new_entry [OF w n l, of 5 "[]" 0]
  have "map_of (limiters (snd (getLimiter [addr 10000] (addr 10000) 5 ?s))) (addr 10000) = None"
    and "tokens (heap (snd (getLimiter [] (addr 10000) 5 (snd (allow 0 [addr 10000] (addr 10000) 5 ?s)))) !
        fst (getLimiter [] (addr 10000) 5 (snd (allow 0 [addr 10000] (addr 10000) 5 ?s)))) =
        real_of_int 5"
    by blast+
  with w n l show ?thesis by (simp only: of_int_numeral)
qed

section \<open>The critical section\<close>

lemma held_ops:
  "set ops \<subseteq> insert (Assign ip) (range Delete) \<Longrightarrow>
     held True (ops @ rest) = map (\<lambda>a. (a, True)) ops @ held True rest"
  by (induction ops) auto

lemma getLimiter_trace:
  "\<exists>ops. set ops \<subseteq> insert (Assign ip) (range Delete) \<and>
     trace (snd (getLimiter seed ip rpm s)) = trace s @ [Lock, Lookup ip] @ ops @ [Unlock]"
proof (cases "map_of (limiters s) ip")
  case (Some p)
  then have "trace (snd (getLimiter seed ip rpm s)) = trace s @ [Lock, Lookup ip] @ [] @ [Unlock]"
    by (simp add: getLimiter_tracked)
  then show ?thesis by (intro exI [of _ "[]"]) simp
next
  case None
  show ?thesis
  proof (cases "length (limiters s) < 10000")
    case True
    with None have "trace (snd (getLimiter seed ip rpm s)) =
        trace s @ [Lock, Lookup ip] @ [Assign ip] @ [Unlock]"
      by (simp add: getLimiter_created)
    then show ?thesis by (intro exI [of _ "[Assign ip]"]) simp
  next
    case False
    then have "10000 \<le> length (limiters s)" by simp
    with None have "trace (snd (getLimiter seed ip rpm s)) =
        trace s @ [Lock, Lookup ip] @
        (Assign ip # map Delete (take 5001
           (range_order seed (limiters s @ [(ip, length (heap s))])))) @ [Unlock]"
      by (simp add: getLimiter_swept)
    then show ?thesis
      by (intro exI [of _ "Assign ip # map Delete (take 5001
           (range_order seed (limiters s @ [(ip, length (heap s))])))"]) auto
  qed
qed

lemma middleware_state:
  "snd (rateLimitMiddleware next rpm now seed r s) = snd (allow now seed (getIPAddress r) rpm s)"
  by (simp add: rateLimitMiddleware_def allow_def Let_def split: prod.splits)

lemma allow_trace:
  "trace (snd (allow now seed ip rpm s)) =
     trace (snd (getLimiter seed ip rpm s)) @ [Consume (fst (getLimiter seed ip rpm s))]"
  by (simp add: allow_eq Limiter_Allow_def split: prod.splits)

text \<open>
  C8, as the code has it. What one run of the middleware does with the shared state is:
  lock, the lookup, then possibly the store of a new entry and the deletions of a
  sweep, unlock, and only then the \<open>Allow\<close> on the limiter. The lookup-or-create and
  the sweep are performed with the mutex held, in one critical section; the
  consumption of the token is performed after the unlock, with the mutex not held.
\<close>

theorem critical_section:
  "\<exists>ops. set ops \<subseteq> insert (Assign (getIPAddress r)) (range Delete) \<and>
     trace (snd (rateLimitMiddleware next rpm now seed r s)) =
       trace s @ [Lock, Lookup (getIPAddress r)] @ ops @
         [Unlock, Consume (fst (getLimiter seed (getIPAddress r) rpm s))] \<and>
     held False ([Lock, Lookup (getIPAddress r)] @ ops @
         [Unlock, Consume (fst (getLimiter seed (getIPAddress r) rpm s))]) =
       [(Lock, False), (Lookup (getIPAddress r), True)] @ map (\<lambda>a. (a, True)) ops @
         [(Unlock, True), (Consume (fst (getLimiter seed (getIPAddress r) rpm s)), False)]"
proof -
  from getLimiter_trace [of "getIPAddress r" seed rpm s] obtain ops where
    o: "set ops \<subseteq> insert (Assign (getIPAddress r)) (range Delete)" and
    t: "trace (snd (getLimiter seed (getIPAddress r) rpm s)) =
          trace s @ [Lock, Lookup (getIPAddress r)] @ ops @ [Unlock]"
    by blast
  have "trace (snd (rateLimitMiddleware next rpm now seed r s)) =
       trace s @ [Lock, Lookup (getIPAddress r)] @ ops @
         [Unlock, Consume (fst (getLimiter seed (getIPAddress r) rpm s))]"
    by (simp add: middleware_state allow_trace t)
  moreover have "held False ([Lock, Lookup (getIPAddress r)] @ ops @
         [Unlock, Consume (fst (getLimiter seed (getIPAddress r) rpm s))]) =
       [(Lock, False), (Lookup (getIPAddress r), True)] @ map (\<lambda>a. (a, True)) ops @
         [(Unlock, True), (Consume (fst (getLimiter seed (getIPAddress r) rpm s)), False)]"
    by (simp add: held_ops [OF o])
  ultimately show ?thesis using o by blast
qed

theorem critical_section_witness:
  "\<exists>ops. set ops \<subseteq> insert (Assign ''198.51.100.4'') (range Delete) \<and>
     trace (snd (rateLimitMiddleware (\<lambda>r. ()) 5 0 []
        \<lparr>Method = ''POST'', Header = (\<lambda>k. []), RemoteAddr = ''198.51.100.4:4000''\<rparr>
        NewLimiters)) =
       [Lock, Lookup ''198.51.100.4''] @ ops @ [Unlock, Consume 0]"
proof -
  let ?r = "\<lparr>Method = ''POST'', Header = (\<lambda>k. []), RemoteAddr = ''198.51.100.4:4000''\<rparr>"
  have s: "SplitHostPort ''198.51.100.4:4000'' = Inr (''198.51.100.4'', ''4000'')"
    by (simp add: SplitHostPort_def LastIndexByte_def split_checks_def)
  have i: "getIPAddress ?r = ''198.51.100.4''"
    by (simp add: getIPAddress_def Header_Get_def s)
  have g: "fst (getLimiter [] ''198.51.100.4'' 5 NewLimiters) = 0"
    by (simp add: getLimiter_def NewLimiters_def Let_def)
  have t: "trace NewLimiters = []" by (simp add: NewLimiters_def)
  from critical_section [of ?r "\<lambda>r. ()" 5 0 "[]" NewLimiters]
  show ?thesis by (simp only: i g t append_Nil) blast
qed

text \<open>
  The token is consumed with the mutex not held. And two requests, from \<open>198.51.100.4\<close>
  and \<open>198.51.100.9\<close>, served by two goroutines: each \<open>getLimiter\<close> runs under the
  mutex, each \<open>Allow\<close> outside it, so the second request's lookup-or-create can run
  between the first request's lookup-or-create and its consumption.
\<close>

theorem critical_section_counterexample:
  "held False (trace (snd (rateLimitMiddleware (\<lambda>r. ()) 5 0 []
      \<lparr>Method = ''POST'', Header = (\<lambda>k. []), RemoteAddr = ''198.51.100.4:4000''\<rparr>
      NewLimiters))) =
     [(Lock, False), (Lookup ''198.51.100.4'', True), (Assign ''198.51.100.4'', True),
      (Unlock, True), (Consume 0, False)] \<and>
   trace (snd (Limiter_Allow 1 0 (snd (Limiter_Allow 0 0
      (snd (getLimiter [] ''198.51.100.9'' 5 (snd (getLimiter [] ''198.51.100.4'' 5
         NewLimiters)))))))) =
     [Lock, Lookup ''198.51.100.4'', Assign ''198.51.100.4'', Unlock,
      Lock, Lookup ''198.51.100.9'', Assign ''198.51.100.9'', Unlock,
      Consume 0, Consume 1]"
proof -
  have s: "SplitHostPort ''198.51.100.4:4000'' = Inr (''198.51.100.4'', ''4000'')"
    by (simp add: SplitHostPort_def LastIndexByte_def split_checks_def)
  have i: "getIPAddress \<lparr>Method = ''POST'', Header = (\<lambda>k. []),
      RemoteAddr = ''198.51.100.4:4000''\<rparr> = ''198.51.100.4''"
    by (simp add: getIPAddress_def Header_Get_def s)
  have g: "getLimiter [] ''198.51.100.4'' 5 NewLimiters =
      (0, \<lparr>limiters = [(''198.51.100.4'', 0)], heap = [NewLimiter (1 / 12) 5],
          trace = [Lock, Lookup ''198.51.100.4'', Assign ''198.51.100.4'', Unlock]\<rparr>)"
    by (simp add: getLimiter_def NewLimiters_def Let_def)
  have g2: "getLimiter [] ''198.51.100.9'' 5
      \<lparr>limiters = [(''198.51.100.4'', 0)], heap = [NewLimiter (1 / 12) 5],
          trace = [Lock, Lookup ''198.51.100.4'', Assign ''198.51.100.4'', Unlock]\<rparr> =
      (1, \<lparr>limiters = [(''198.51.100.4'', 0), (''198.51.100.9'', 1)],
          heap = [NewLimiter (1 / 12) 5, NewLimiter (1 / 12) 5],
          trace = [Lock, Lookup ''198.51.100.4'', Assign ''198.51.100.4'', Unlock,
                   Lock, Lookup ''198.51.100.9'', Assign ''198.51.100.9'', Unlock]\<rparr>)"
    by (simp add: getLimiter_def Let_def)
  show ?thesis
    by (simp add: middleware_state allow_eq i g g2 Limiter_Allow_def split: prod.splits)
qed

section \<open>Admission by the middleware\<close>

lemma middleware_allow:
  "rateLimitMiddleware next rpm now seed r s =
     (if fst (allow now seed (getIPAddress r) rpm s) then Inr (next r)
      else Inl (''Rate limit exceeded. Please try again later.'', 429),
      snd (allow now seed (getIPAddress r) rpm s))"
  by (simp add: rateLimitMiddleware_def allow_def Let_def split: prod.splits)

lemma serve_seq_Cons:
  "serve_seq next rpm ((now, seed, r) # rs) s =
     ((if fst (allow now seed (getIPAddress r) rpm s) then Inr (next r)
       else Inl (''Rate limit exceeded. Please try again later.'', 429)) #
        fst (serve_seq next rpm rs (snd (allow now seed (getIPAddress r) rpm s))),
      snd (serve_seq next rpm rs (snd (allow now seed (getIPAddress r) rpm s))))"
  by (simp add: middleware_allow split: prod.splits)

lemma allow_seq_results:
  "fst (allow_seq ((now, seed, ip) # cs) rpm s) =
     fst (allow now seed ip rpm s) # fst (allow_seq cs rpm (snd (allow now seed ip rpm s)))"
  by (simp add: allow_seq_Cons)

lemma allow_swept_self:
  assumes "wf_limiters s" and "map_of (limiters s) ip = None"
    and "length (limiters s) = 10000" and "0 < rpm"
  shows "fst (allow now [ip] ip rpm s)"
    and "map_of (limiters (snd (allow now [ip] ip rpm s))) ip = None"
    and "length (limiters (snd (allow now [ip] ip rpm s))) < 10000"
proof -
  from assms(3) have l: "10000 \<le> length (limiters s)" by simp
  note a = getLimiter_swept_self [OF assms(1,2) l, of rpm]
  have "heap (snd (getLimiter [ip] ip rpm s)) ! fst (getLimiter [ip] ip rpm s) =
      NewLimiter (real_of_int rpm / 60) rpm"
    by (simp add: a(2,4))
  then show "fst (allow now [ip] ip rpm s)"
    by (simp add: allow_eq Limiter_Allow_def Allow_first [OF assms(4)] split: prod.splits)
  show "map_of (limiters (snd (allow now [ip] ip rpm s))) ip = None"
    by (simp only: allow_limiters a(1))
  have "length (limiters (snd (allow now [ip] ip rpm s))) = length (limiters s) - 5000"
    by (simp only: allow_limiters getLimiter_swept_length [OF assms(1,2) l])
  with assms(3) show "length (limiters (snd (allow now [ip] ip rpm s))) < 10000" by simp
qed

lemma request_from_address: "getIPAddress (request_from n) = addr n"
  by (simp add: getIPAddress_def request_from_def Header_Get_def addr_def Let_def)

text \<open>
  C3, as the code has it. Seven requests in a row from one address reach the middleware
  set to 5 requests per minute (rate 5/60 per second, burst 5). The address is not yet
  tracked and the map holds fewer than 10000 addresses, so that the creation of its
  bucket sweeps nothing. The first six arrive within one second: five are passed to
  \<open>next\<close> and the sixth is answered with status 429. The seventh arrives 60 seconds
  or more after the sixth and is passed to \<open>next\<close>.
\<close>

theorem token_bucket_admission:
  assumes "getIPAddress r1 = ip" and "getIPAddress r2 = ip" and "getIPAddress r3 = ip"
    and "getIPAddress r4 = ip" and "getIPAddress r5 = ip" and "getIPAddress r6 = ip"
    and "getIPAddress r7 = ip"
    and "map_of (limiters s) ip = None" and "length (limiters s) < 10000"
    and "t1 \<le> t2" and "t2 \<le> t3" and "t3 \<le> t4" and "t4 \<le> t5" and "t5 \<le> t6"
    and "t6 \<le> t1 + 1" and "t6 + 60 \<le> t7"
  shows "fst (serve_seq next 5 [(t1, sd1, r1), (t2, sd2, r2), (t3, sd3, r3), (t4, sd4, r4),
                               (t5, sd5, r5), (t6, sd6, r6), (t7, sd7, r7)] s) =
           [Inr (next r1), Inr (next r2), Inr (next r3), Inr (next r4), Inr (next r5),
            Inl (''Rate limit exceeded. Please try again later.'', 429), Inr (next r7)]"
proof -
  have "fst (allow_seq [(t1, sd1, ip), (t2, sd2, ip), (t3, sd3, ip), (t4, sd4, ip),
                        (t5, sd5, ip), (t6, sd6, ip), (t7, sd7, ip)] 5 s) =
          [True, True, True, True, True, False, True]"
    using assms(8-16) by (rule fresh_bucket_run)
  then have "fst (allow t1 sd1 ip 5 s) \<and>
     fst (allow t2 sd2 ip 5 (snd (allow t1 sd1 ip 5 s))) \<and>
     fst (allow t3 sd3 ip 5 (snd (allow t2 sd2 ip 5 (snd (allow t1 sd1 ip 5 s))))) \<and>
     fst (allow t4 sd4 ip 5 (snd (allow t3 sd3 ip 5 (snd (allow t2 sd2 ip 5
       (snd (allow t1 sd1 ip 5 s))))))) \<and>
     fst (allow t5 sd5 ip 5 (snd (allow t4 sd4 ip 5 (snd (allow t3 sd3 ip 5
       (snd (allow t2 sd2 ip 5 (snd (allow t1 sd1 ip 5 s))))))))) \<and>
     \<not> fst (allow t6 sd6 ip 5 (snd (allow t5 sd5 ip 5 (snd (allow t4 sd4 ip 5
       (snd (allow t3 sd3 ip 5 (snd (allow t2 sd2 ip 5 (snd (allow t1 sd1 ip 5 s))))))))))) \<and>
     fst (allow t7 sd7 ip 5 (snd (allow t6 sd6 ip 5 (snd (allow t5 sd5 ip 5
       (snd (allow t4 sd4 ip 5 (snd (allow t3 sd3 ip 5 (snd (allow t2 sd2 ip 5
       (snd (allow t1 sd1 ip 5 s)))))))))))))"
    by (simp add: allow_seq_results del: allow_seq.simps(2))
  then show ?thesis
    by (simp add: serve_seq_Cons assms(1-7) del: serve_seq.simps(2))
qed

theorem token_bucket_admission_witness:
  "getIPAddress \<lparr>Method = ''POST'', Header = (\<lambda>k. []), RemoteAddr = ''203.0.113.7:51234''\<rparr> =
     ''203.0.113.7'' \<and>
   map_of (limiters NewLimiters) ''203.0.113.7'' = None \<and>
   length (limiters NewLimiters) < 10000 \<and>
   fst (serve_seq Method 5
     [(100, [], \<lparr>Method = ''POST'', Header = (\<lambda>k. []), RemoteAddr = ''203.0.113.7:51234''\<rparr>),
      (100.1, [], \<lparr>Method = ''POST'', Header = (\<lambda>k. []), RemoteAddr = ''203.0.113.7:51234''\<rparr>),
      (100.3, [], \<lparr>Method = ''POST'', Header = (\<lambda>k. []), RemoteAddr = ''203.0.113.7:51234''\<rparr>),
      (100.5, [], \<lparr>Method = ''POST'', Header = (\<lambda>k. []), RemoteAddr = ''203.0.113.7:51234''\<rparr>),
      (100.7, [], \<lparr>Method = ''POST'', Header = (\<lambda>k. []), RemoteAddr = ''203.0.113.7:51234''\<rparr>),
      (100.9, [], \<lparr>Method = ''POST'', Header = (\<lambda>k. []), RemoteAddr = ''203.0.113.7:51234''\<rparr>),
      (160.9, [], \<lparr>Method = ''POST'', Header = (\<lambda>k. []), RemoteAddr = ''203.0.113.7:51234''\<rparr>)]
     NewLimiters) =
     [Inr ''POST'', Inr ''POST'', Inr ''POST'', Inr ''POST'', Inr ''POST'',
      Inl (''Rate limit exceeded. Please try again later.'', 429), Inr ''POST'']"
proof -
  let ?r = "\<lparr>Method = ''POST'', Header = (\<lambda>k. []), RemoteAddr = ''203.0.113.7:51234''\<rparr>"
  have sp: "SplitHostPort ''203.0.113.7:51234'' = Inr (''203.0.113.7'', ''51234'')"
    by (simp add: SplitHostPort_def LastIndexByte_def split_checks_def)
  have i: "getIPAddress ?r = ''203.0.113.7''"
    by (simp add: getIPAddress_def Header_Get_def sp)
  have a: "map_of (limiters NewLimiters) ''203.0.113.7'' = None"
    by (simp add: NewLimiters_def)
  have b: "length (limiters NewLimiters) < 10000"
    by (simp add: NewLimiters_def)
  have "fst (serve_seq Method 5
     [(100, [], ?r), (100.1, [], ?r), (100.3, [], ?r), (100.5, [], ?r), (100.7, [], ?r),
      (100.9, [], ?r), (160.9, [], ?r)] NewLimiters) =
     [Inr (Method ?r), Inr (Method ?r), Inr (Method ?r), Inr (Method ?r), Inr (Method ?r),
      Inl (''Rate limit exceeded. Please try again later.'', 429), Inr (Method ?r)]"
    by (rule token_bucket_admission [OF i i i i i i i a b]) simp_all
  with i a b show ?thesis by simp
qed

text \<open>
  10000 addresses are tracked and a request comes from another one: under the order
  that visits the new key first, the sweep deletes the bucket just created, the next
  request from the address creates a second bucket, and six requests at one instant
  are all passed to \<open>next\<close>.
\<close>

theorem token_bucket_admission_counterexample:
  "fst (serve_seq (\<lambda>r. ()) 5
     [(0, [addr 10000], request_from 10000), (0, [], request_from 10000),
      (0, [], request_from 10000), (0, [], request_from 10000),
      (0, [], request_from 10000), (0, [], request_from 10000)]
     (snd (allow_seq (map call_from [0..<10000]) 5 NewLimiters))) =
     [Inr (), Inr (), Inr (), Inr (), Inr (), Inr ()]"
proof -
  define S where "S = snd (allow_seq (map call_from [0..<10000]) 5 NewLimiters)"
  define ip where "ip = addr 10000"
  define r where "r = request_from 10000"
  have i: "getIPAddress r = ip" by (simp only: r_def ip_def request_from_address)
  have w: "wf_limiters S" unfolding S_def using NewLimiters_wf by (rule allow_seq_wf)
  have n: "map_of (limiters S) ip = None" unfolding S_def ip_def by (rule addr_untracked)
  have l: "length (limiters S) = 10000" unfolding S_def by (rule full_map)
  have p: "(0::int) < 5" by simp
  note f = allow_swept_self [OF w n l p, of 0]
  define S1 where "S1 = snd (allow 0 [ip] ip 5 S)"
  have "fst (allow_seq [(0, [], ip), (0, [], ip), (0, [], ip), (0, [], ip),
                        (0, [], ip), (0, [], ip), (60, [], ip)] 5 S1) =
          [True, True, True, True, True, False, True]"
    unfolding S1_def by (rule fresh_bucket_run [OF f(2,3)]) simp_all
  then have g: "fst (allow 0 [] ip 5 S1) \<and>
     fst (allow 0 [] ip 5 (snd (allow 0 [] ip 5 S1))) \<and>
     fst (allow 0 [] ip 5 (snd (allow 0 [] ip 5 (snd (allow 0 [] ip 5 S1))))) \<and>
     fst (allow 0 [] ip 5 (snd (allow 0 [] ip 5 (snd (allow 0 [] ip 5
       (snd (allow 0 [] ip 5 S1))))))) \<and>
     fst (allow 0 [] ip 5 (snd (allow 0 [] ip 5 (snd (allow 0 [] ip 5
       (snd (allow 0 [] ip 5 (snd (allow 0 [] ip 5 S1)))))))))"
    by (simp add: allow_seq_results del: allow_seq.simps(2))
  have "fst (serve_seq (\<lambda>r. ()) 5
     [(0, [ip], r), (0, [], r), (0, [], r), (0, [], r), (0, [], r), (0, [], r)] S) =
     [Inr (), Inr (), Inr (), Inr (), Inr (), Inr ()]"
    using f(1) g
    by (simp add: serve_seq_Cons i S1_def [symmetric] del: serve_seq.simps(2))
  then show ?thesis by (simp only: S_def ip_def r_def)
qed

section \<open>The snapshot on connect\<close>




















end
